theory Spec2Isabelle
  imports Main "HOL-Library.AList" "HOL-Library.Sublist" "HOL-Library.Word"
begin

section \<open>Strings and POSIX path names\<close>

text \<open>
  The scripts run on a POSIX host (\<open>os.path\<close> is \<open>posixpath\<close>; the one branch on
  \<open>platform.system()\<close> singles out Darwin). Names are Python \<open>str\<close> values, modelled
  as \<open>string\<close>. The functions below follow the library source of \<open>str\<close> and
  \<open>posixpath\<close> line by line.
\<close>

abbreviation slash :: char where "slash \<equiv> CHR ''/''"
abbreviation backslash :: char where "backslash \<equiv> CHR 0x5C"
abbreviation newline :: char where "newline \<equiv> CHR 0x0A"
abbreviation dot :: char where "dot \<equiv> CHR ''.''"

definition endswith :: "string \<Rightarrow> string \<Rightarrow> bool" where
  "endswith s suf = (length suf \<le> length s \<and> drop (length s - length suf) s = suf)"

definition startswith :: "string \<Rightarrow> string \<Rightarrow> bool" where
  "startswith s pre = (take (length pre) s = pre)"

text \<open>\<open>s.rfind(c)\<close>: the index of the last occurrence of \<open>c\<close>, or \<open>-1\<close>.\<close>

fun rfind_from :: "char \<Rightarrow> string \<Rightarrow> int \<Rightarrow> int \<Rightarrow> int" where
  "rfind_from c [] i best = best"
| "rfind_from c (x # xs) i best = rfind_from c xs (i + 1) (if x = c then i else best)"

definition rfind :: "char \<Rightarrow> string \<Rightarrow> int" where
  "rfind c s = rfind_from c s 0 (- 1)"

text \<open>\<open>s.rstrip(chars)\<close>, \<open>s.lstrip(chars)\<close> and \<open>s.strip(chars)\<close>: the characters
  of \<open>chars\<close> are a set, removed from the ends for as long as they occur.\<close>

definition lstrip :: "string \<Rightarrow> string \<Rightarrow> string" where
  "lstrip s chars = dropWhile (\<lambda>c. c \<in> set chars) s"

definition rstrip :: "string \<Rightarrow> string \<Rightarrow> string" where
  "rstrip s chars = rev (dropWhile (\<lambda>c. c \<in> set chars) (rev s))"

definition strip :: "string \<Rightarrow> string \<Rightarrow> string" where
  "strip s chars = rstrip (lstrip s chars) chars"

text \<open>\<open>sep.join(xs)\<close>.\<close>

fun str_join :: "string \<Rightarrow> string list \<Rightarrow> string" where
  "str_join sep [] = []"
| "str_join sep [x] = x"
| "str_join sep (x # y # ys) = x @ sep @ str_join sep (y # ys)"

text \<open>\<open>s.split('/')\<close>: the pieces between the separators, empty pieces included.\<close>

fun split_on :: "char \<Rightarrow> string \<Rightarrow> string list" where
  "split_on c [] = [[]]"
| "split_on c (x # xs) =
     (if x = c then [] # split_on c xs
      else (case split_on c xs of [] \<Rightarrow> [[x]] | p # ps \<Rightarrow> (x # p) # ps))"

text \<open>\<open>s.replace(a, b)\<close> for single characters.\<close>

definition replace_char :: "char \<Rightarrow> char \<Rightarrow> string \<Rightarrow> string" where
  "replace_char a b s = map (\<lambda>c. if c = a then b else c) s"

text \<open>\<open>str(n)\<close> for a natural number.\<close>

definition digit_char :: "nat \<Rightarrow> char" where
  "digit_char d = char_of (48 + d)"

function str_nat :: "nat \<Rightarrow> string" where
  "str_nat n = (if n < 10 then [digit_char n] else str_nat (n div 10) @ [digit_char (n mod 10)])"
  by pat_completeness auto
termination
  by (relation "measure id") auto

declare str_nat.simps [simp del]

text \<open>\<open>posixpath.basename\<close>:
  \<^verbatim>\<open>i = p.rfind('/') + 1; return p[i:]\<close>\<close>

definition basename :: "string \<Rightarrow> string" where
  "basename p = drop (nat (rfind slash p + 1)) p"

text \<open>\<open>posixpath.dirname\<close>:
  \<^verbatim>\<open>i = p.rfind('/') + 1; head = p[:i]
  if head and head != '/' * len(head): head = head.rstrip('/')
  return head\<close>\<close>

definition dirname :: "string \<Rightarrow> string" where
  "dirname p =
     (let head = take (nat (rfind slash p + 1)) p
      in if head \<noteq> [] \<and> head \<noteq> replicate (length head) slash
         then rstrip head [slash] else head)"

text \<open>\<open>posixpath.join(a, b)\<close>:
  \<^verbatim>\<open>if b.startswith('/'): path = b
  elif not path or path.endswith('/'): path += b
  else: path += '/' + b\<close>\<close>

definition join :: "string \<Rightarrow> string \<Rightarrow> string" where
  "join a b =
     (if startswith b [slash] then b
      else if a = [] \<or> endswith a [slash] then a @ b
      else a @ [slash] @ b)"

section \<open>unzip.py: the directory-detection heuristic\<close>

text \<open>
  \<^verbatim>\<open>def is_directory(name):
    if name.endswith("/") or name.endswith("\\"):
        return True
    if "." not in os.path.basename(name):
        return True
    return False\<close>
\<close>

definition is_directory :: "string \<Rightarrow> bool" where
  "is_directory name =
     (if endswith name [slash] \<or> endswith name [backslash] then True
      else if dot \<notin> set (basename name) then True
      else False)"

text \<open>The spec's wording of the final path segment: what follows the last \<open>/\<close>.\<close>

definition final_segment :: "string \<Rightarrow> string" where
  "final_segment n = rev (takeWhile (\<lambda>c. c \<noteq> slash) (rev n))"

definition ends_with_separator :: "string \<Rightarrow> bool" where
  "ends_with_separator n = (n \<noteq> [] \<and> (last n = slash \<or> last n = backslash))"

section \<open>The filesystem, zip containers and the process environment\<close>

text \<open>
  File contents are byte strings. A file that is a zip container is kept as the list of
  its members in container order (name, compression method, payload); a payload that does
  not decompress is \<open>None\<close>. Nothing else of the container format is visible to the
  scripts.
\<close>

type_synonym byte = "8 word"

datatype compression = ZIP_STORED | ZIP_DEFLATED

datatype fdata = Bytes "byte list" | Zip "(string \<times> compression \<times> fdata option) list"

type_synonym zentry = "string \<times> compression \<times> fdata option"

text \<open>A directory lists its children in creation order (the order \<open>os.listdir\<close> and
  \<open>os.walk\<close> report them in is the host's; the model fixes this one).\<close>

datatype node = File fdata | Dir "(string \<times> node) list"

type_synonym path = "string list"

datatype error =
    FileNotFoundError | FileExistsError | NotADirectoryError | IsADirectoryError
  | BadZipFile | EOFError | DecompressError | AttributeError | ValueError | ShutilError

datatype line =
    Error_extracting string error
  | Successfully_saved string
  | Schedule_expanded string

text \<open>The environment of a run: the file tree, the working directory, whether the
  host is Darwin, what has been printed, and whether a zip container that is open for
  reading fits the buffer of its reader (a container of a few kilobytes does): the members
  of such a container are then served from the buffer, also after the file itself has been
  overwritten.\<close>

record world =
  root :: node
  cwd :: path
  darwin :: bool
  buffered :: bool
  stdout :: "line list"

type_synonym 'a io = "world \<Rightarrow> (error + 'a) \<times> world"

definition bind :: "'a io \<Rightarrow> ('a \<Rightarrow> 'b io) \<Rightarrow> 'b io" where
  "bind m f w = (case m w of (Inl e, w1) \<Rightarrow> (Inl e, w1) | (Inr x, w1) \<Rightarrow> f x w1)"

definition return :: "'a \<Rightarrow> 'a io" where
  "return x w = (Inr x, w)"

definition raise :: "error \<Rightarrow> 'a io" where
  "raise e w = (Inl e, w)"

definition print :: "line \<Rightarrow> unit io" where
  "print l w = (Inr (), w\<lparr>stdout := stdout w @ [l]\<rparr>)"

subsection \<open>Name resolution\<close>

text \<open>Names are resolved lexically from the root or the working directory: empty
  components and \<open>.\<close> are skipped, \<open>..\<close> drops the last component. There are no
  symbolic links.\<close>

fun normalise :: "path \<Rightarrow> string list \<Rightarrow> path" where
  "normalise acc [] = acc"
| "normalise acc (c # cs) =
     (if c = [] \<or> c = ''.'' then normalise acc cs
      else if c = ''..'' then normalise (butlast acc) cs
      else normalise (acc @ [c]) cs)"

definition resolve :: "world \<Rightarrow> string \<Rightarrow> path" where
  "resolve w s = normalise (if startswith s [slash] then [] else cwd w) (split_on slash s)"

subsection \<open>Trees\<close>

fun lookup :: "path \<Rightarrow> node \<Rightarrow> node option" where
  "lookup [] n = Some n"
| "lookup (c # cs) (File d) = None"
| "lookup (c # cs) (Dir kids) =
     (case map_of kids c of None \<Rightarrow> None | Some n \<Rightarrow> lookup cs n)"

text \<open>The error of a name that does not resolve: a file in the way is \<open>ENOTDIR\<close>,
  a missing component \<open>ENOENT\<close>.\<close>

fun missing_error :: "path \<Rightarrow> node \<Rightarrow> error" where
  "missing_error [] n = FileNotFoundError"
| "missing_error (c # cs) (File d) = NotADirectoryError"
| "missing_error (c # cs) (Dir kids) =
     (case map_of kids c of None \<Rightarrow> FileNotFoundError | Some n \<Rightarrow> missing_error cs n)"

text \<open>\<open>put p new t\<close> sets the node at \<open>p\<close>, whose parent must be a directory;
  a new child goes to the end of its directory.\<close>

fun put :: "path \<Rightarrow> node \<Rightarrow> node \<Rightarrow> node" where
  "put [] new t = new"
| "put (c # cs) new (File d) = File d"
| "put (c # cs) new (Dir kids) =
     (case map_of kids c of
        None \<Rightarrow> (if cs = [] then Dir (AList.update c new kids) else Dir kids)
      | Some n \<Rightarrow> Dir (AList.update c (put cs new n) kids))"

fun remove :: "path \<Rightarrow> node \<Rightarrow> node" where
  "remove [] t = t"
| "remove (c # cs) (File d) = File d"
| "remove (c # cs) (Dir kids) =
     (case map_of kids c of
        None \<Rightarrow> Dir kids
      | Some n \<Rightarrow> (if cs = [] then Dir (AList.delete c kids)
                   else Dir (AList.update c (remove cs n) kids)))"

definition is_dir_node :: "node option \<Rightarrow> bool" where
  "is_dir_node n = (case n of Some (Dir kids) \<Rightarrow> True | _ \<Rightarrow> False)"

definition isdir :: "world \<Rightarrow> string \<Rightarrow> bool" where
  "isdir w s = (s \<noteq> [] \<and> is_dir_node (lookup (resolve w s) (root w)))"

subsection \<open>The calls of \<open>os\<close>, \<open>open\<close>, \<open>tempfile\<close> and \<open>shutil\<close> the scripts make\<close>

text \<open>The empty name is no file: every call on it fails with \<open>ENOENT\<close>.\<close>

text \<open>\<open>os.mkdir(s)\<close>.\<close>

definition mkdir_at :: "path \<Rightarrow> node \<Rightarrow> error + node" where
  "mkdir_at p t =
     (case lookup p t of
        Some n \<Rightarrow> Inl FileExistsError
      | None \<Rightarrow>
          (case lookup (butlast p) t of
             Some (Dir kids) \<Rightarrow> Inr (put p (Dir []) t)
           | Some (File d) \<Rightarrow> Inl NotADirectoryError
           | None \<Rightarrow> Inl (missing_error (butlast p) t)))"

definition os_mkdir :: "string \<Rightarrow> unit io" where
  "os_mkdir s w =
     (if s = [] then (Inl FileNotFoundError, w)
      else case mkdir_at (resolve w s) (root w) of
        Inl e \<Rightarrow> (Inl e, w)
      | Inr t \<Rightarrow> (Inr (), w\<lparr>root := t\<rparr>))"

text \<open>Creating every missing directory on the way to a path: a file on the way, or at
  the end, is an error.\<close>

fun chain :: "path \<Rightarrow> node" where
  "chain [] = Dir []"
| "chain (c # cs) = Dir [(c, chain cs)]"

fun makedirs_at :: "path \<Rightarrow> node \<Rightarrow> error + node" where
  "makedirs_at [] (Dir kids) = Inr (Dir kids)"
| "makedirs_at [] (File d) = Inl FileExistsError"
| "makedirs_at (c # cs) (File d) = Inl NotADirectoryError"
| "makedirs_at (c # cs) (Dir kids) =
     (case map_of kids c of
        None \<Rightarrow> Inr (Dir (kids @ [(c, chain cs)]))
      | Some n \<Rightarrow>
          (case makedirs_at cs n of
             Inl e \<Rightarrow> Inl e
           | Inr n' \<Rightarrow> Inr (Dir (AList.update c n' kids))))"

text \<open>\<open>os.makedirs(s, exist_ok=True)\<close> splits the name at its last separator, first
  makes the head, then the last component. So the components are worked off from the
  left: an empty component and \<open>.\<close> stay where they are; at \<open>..\<close> the directories named
  so far are made before the walk steps back to the parent, and they stay, also when a
  later step fails; what is named at the end is made last. A name without \<open>..\<close> makes
  exactly the path it resolves to.\<close>

fun makedirs_comps :: "path \<Rightarrow> string list \<Rightarrow> node \<Rightarrow> error option \<times> node" where
  "makedirs_comps acc [] t =
     (case makedirs_at acc t of Inl e \<Rightarrow> (Some e, t) | Inr t' \<Rightarrow> (None, t'))"
| "makedirs_comps acc (c # cs) t =
     (if c = [] \<or> c = ''.'' then makedirs_comps acc cs t
      else if c = ''..'' then
        (case makedirs_at acc t of
           Inl e \<Rightarrow> (Some NotADirectoryError, t)
         | Inr t' \<Rightarrow> makedirs_comps (butlast acc) cs t')
      else makedirs_comps (acc @ [c]) cs t)"

definition os_makedirs :: "string \<Rightarrow> unit io" where
  "os_makedirs s w =
     (if s = [] then (Inl FileNotFoundError, w)
      else case makedirs_comps (if startswith s [slash] then [] else cwd w)
                  (split_on slash s) (root w) of
        (Some e, t) \<Rightarrow> (Inl e, w\<lparr>root := t\<rparr>)
      | (None, t) \<Rightarrow> (Inr (), w\<lparr>root := t\<rparr>))"

text \<open>\<open>open(s, "wb+")\<close> followed by \<open>write(data)\<close>: the file is created or
  truncated, then filled. \<open>open(s, "wb+")\<close> alone leaves it empty. A name that ends
  with \<open>/\<close> names a directory and cannot be opened as a file.\<close>

definition write_at :: "path \<Rightarrow> fdata \<Rightarrow> node \<Rightarrow> error + node" where
  "write_at p data t =
     (case lookup p t of
        Some (Dir kids) \<Rightarrow> Inl IsADirectoryError
      | Some (File d) \<Rightarrow> Inr (put p (File data) t)
      | None \<Rightarrow>
          (case lookup (butlast p) t of
             Some (Dir kids) \<Rightarrow> Inr (put p (File data) t)
           | Some (File d) \<Rightarrow> Inl NotADirectoryError
           | None \<Rightarrow> Inl (missing_error (butlast p) t)))"

definition write_file :: "string \<Rightarrow> fdata \<Rightarrow> unit io" where
  "write_file s data w =
     (if s = [] then (Inl FileNotFoundError, w)
      else if endswith s [slash] then
        (case lookup (resolve w s) (root w) of
           Some (File d) \<Rightarrow> (Inl NotADirectoryError, w)
         | _ \<Rightarrow> (Inl IsADirectoryError, w))
      else case write_at (resolve w s) data (root w) of
        Inl e \<Rightarrow> (Inl e, w)
      | Inr t \<Rightarrow> (Inr (), w\<lparr>root := t\<rparr>))"

definition open_wb :: "string \<Rightarrow> unit io" where
  "open_wb s = write_file s (Bytes [])"

text \<open>\<open>open(s, "rb+").read()\<close>.\<close>

definition read_file :: "string \<Rightarrow> fdata io" where
  "read_file s w =
     (if s = [] then (Inl FileNotFoundError, w)
      else case lookup (resolve w s) (root w) of
        Some (File d) \<Rightarrow> (if endswith s [slash] then (Inl NotADirectoryError, w) else (Inr d, w))
      | Some (Dir kids) \<Rightarrow> (Inl IsADirectoryError, w)
      | None \<Rightarrow> (Inl (missing_error (resolve w s) (root w)), w))"

text \<open>\<open>os.listdir(s)\<close>.\<close>

definition os_listdir :: "string \<Rightarrow> string list io" where
  "os_listdir s w =
     (if s = [] then (Inl FileNotFoundError, w)
      else case lookup (resolve w s) (root w) of
        Some (Dir kids) \<Rightarrow> (Inr (map fst kids), w)
      | Some (File d) \<Rightarrow> (Inl NotADirectoryError, w)
      | None \<Rightarrow> (Inl (missing_error (resolve w s) (root w)), w))"


text \<open>\<open>os.walk(top)\<close>, top-down: \<open>(root, dirs, files)\<close> for the directory, then the
  walks of its subdirectories in listing order. A directory that cannot be listed yields
  nothing (\<open>onerror\<close> is not set).\<close>

definition is_Dir :: "node \<Rightarrow> bool" where
  "is_Dir n = (case n of Dir kids \<Rightarrow> True | File d \<Rightarrow> False)"

fun walk_node :: "string \<Rightarrow> node \<Rightarrow> (string \<times> string list \<times> string list) list" where
  "walk_node here (File d) = []"
| "walk_node here (Dir kids) =
     (here, map fst (filter (\<lambda>kn. is_Dir (snd kn)) kids),
           map fst (filter (\<lambda>kn. \<not> is_Dir (snd kn)) kids))
     # concat (map (\<lambda>kn. walk_node (join here (fst kn)) (snd kn))
                   (filter (\<lambda>kn. is_Dir (snd kn)) kids))"

definition os_walk :: "world \<Rightarrow> string \<Rightarrow> (string \<times> string list \<times> string list) list" where
  "os_walk w start =
     (if start = [] then []
      else case lookup (resolve w start) (root w) of None \<Rightarrow> [] | Some n \<Rightarrow> walk_node start n)"

text \<open>\<open>tempfile.TemporaryDirectory()\<close>: a new, empty directory under \<open>/tmp\<close> with a
  name no entry of \<open>/tmp\<close> has (the library draws names at random until one is free; the
  model takes one longer than every name there). Leaving the \<open>with\<close> block removes the
  directory and everything below it, on every exit path.\<close>

definition fresh_name :: "string list \<Rightarrow> string" where
  "fresh_name names = ''tmp'' @ replicate (foldr (\<lambda>n m. max (length n) m) names 0) CHR ''_''"

definition mkdtemp :: "string io" where
  "mkdtemp w =
     (case lookup [''tmp''] (root w) of
        Some (Dir kids) \<Rightarrow>
          (let nm = fresh_name (map fst kids)
           in (Inr (''/tmp/'' @ nm), w\<lparr>root := put [''tmp'', nm] (Dir []) (root w)\<rparr>))
      | _ \<Rightarrow> (Inl FileNotFoundError, w))"

definition rmtree :: "string \<Rightarrow> world \<Rightarrow> world" where
  "rmtree s w = w\<lparr>root := remove (resolve w s) (root w)\<rparr>"

definition TemporaryDirectory :: "(string \<Rightarrow> 'a io) \<Rightarrow> 'a io" where
  "TemporaryDirectory body w =
     (case mkdtemp w of
        (Inl e, w1) \<Rightarrow> (Inl e, w1)
      | (Inr d, w1) \<Rightarrow> (case body d w1 of (r, w2) \<Rightarrow> (r, rmtree d w2)))"

text \<open>\<open>shutil.copy(src, dst)\<close>: into \<open>dst\<close> when it is a directory, under the base
  name of \<open>src\<close>.\<close>

definition shutil_copy :: "string \<Rightarrow> string \<Rightarrow> unit io" where
  "shutil_copy src dst w =
     (let target = (if isdir w dst then join dst (basename src) else dst)
      in bind (read_file src) (\<lambda>d. write_file target d) w)"

text \<open>\<open>shutil.copytree(src, dst, dirs_exist_ok=True)\<close>: the tree of \<open>src\<close> is laid
  over \<open>dst\<close>. An entry that cannot be copied is skipped and the call raises
  \<open>shutil.Error\<close> at the end; the flag of the result says so.\<close>

fun copytree_node :: "node \<Rightarrow> node option \<Rightarrow> node \<times> bool" where
  "copytree_node (File d) dst = (File d, False)"
| "copytree_node (Dir skids) dst =
     (case dst of
        Some (File d) \<Rightarrow> (File d, True)
      | _ \<Rightarrow>
        (case fold (\<lambda>kn (dk, err).
                 (case snd kn of
                    Dir ks \<Rightarrow>
                      (case copytree_node (snd kn) (map_of dk (fst kn)) of
                         (n', e') \<Rightarrow> (AList.update (fst kn) n' dk, err \<or> e'))
                  | File d \<Rightarrow>
                      (case map_of dk (fst kn) of
                         Some (Dir dk2) \<Rightarrow>
                           (case map_of dk2 (fst kn) of
                              Some (Dir dk3) \<Rightarrow> (dk, True)
                            | _ \<Rightarrow> (AList.update (fst kn)
                                       (Dir (AList.update (fst kn) (File d) dk2)) dk, err))
                       | _ \<Rightarrow> (AList.update (fst kn) (File d) dk, err))))
               skids
               (case dst of Some (Dir dk) \<Rightarrow> dk | _ \<Rightarrow> [], False) of
           (dk, err) \<Rightarrow> (Dir dk, err)))"

definition shutil_copytree :: "string \<Rightarrow> string \<Rightarrow> unit io" where
  "shutil_copytree src dst w =
     (if src = [] \<or> dst = [] then (Inl FileNotFoundError, w)
      else case lookup (resolve w src) (root w) of
        None \<Rightarrow> (Inl (missing_error (resolve w src) (root w)), w)
      | Some (File d) \<Rightarrow> (Inl NotADirectoryError, w)
      | Some (Dir skids) \<Rightarrow>
          (case os_makedirs dst w of
             (Inl e, w1) \<Rightarrow> (Inl e, w1)
           | (Inr u, w1) \<Rightarrow>
               (case copytree_node (Dir skids) (lookup (resolve w dst) (root w1)) of
                  (n, err) \<Rightarrow>
                    (if err then Inl ShutilError else Inr (),
                     w1\<lparr>root := put (resolve w dst) n (root w1)\<rparr>))))"

subsection \<open>\<open>posixpath.normpath\<close>, \<open>abspath\<close> and \<open>relpath\<close>\<close>

fun normpath_comps :: "bool \<Rightarrow> string list \<Rightarrow> string list \<Rightarrow> string list" where
  "normpath_comps initial_slashes new_comps [] = new_comps"
| "normpath_comps initial_slashes new_comps (part # comps) =
     (if part = [] \<or> part = ''.'' then normpath_comps initial_slashes new_comps comps
      else if part \<noteq> ''..'' \<or> (\<not> initial_slashes \<and> new_comps = [])
              \<or> (new_comps \<noteq> [] \<and> last new_comps = ''..'')
      then normpath_comps initial_slashes (new_comps @ [part]) comps
      else if new_comps \<noteq> [] then normpath_comps initial_slashes (butlast new_comps) comps
      else normpath_comps initial_slashes new_comps comps)"

definition normpath :: "string \<Rightarrow> string" where
  "normpath p =
     (if p = [] then ''.''
      else
        let initial_slashes =
              (if startswith p ''/'' then
                 (if startswith p ''//'' \<and> \<not> startswith p ''///'' then 2 else 1)
               else (0::nat));
            comps = normpath_comps (initial_slashes \<noteq> 0) [] (split_on slash p);
            q = replicate initial_slashes slash @ str_join ''/'' comps
        in if q = [] then ''.'' else q)"

definition getcwd :: "world \<Rightarrow> string" where
  "getcwd w = slash # str_join ''/'' (cwd w)"

definition abspath :: "world \<Rightarrow> string \<Rightarrow> string" where
  "abspath w p = (if startswith p ''/'' then normpath p else normpath (join (getcwd w) p))"

fun commonprefix_len :: "string list \<Rightarrow> string list \<Rightarrow> nat" where
  "commonprefix_len (x # xs) (y # ys) = (if x = y then Suc (commonprefix_len xs ys) else 0)"
| "commonprefix_len xs ys = 0"

definition relpath :: "world \<Rightarrow> string \<Rightarrow> string \<Rightarrow> error + string" where
  "relpath w p start =
     (if p = [] then Inl ValueError
      else
        let start_list = filter (\<lambda>x. x \<noteq> []) (split_on slash (abspath w start));
            path_list = filter (\<lambda>x. x \<noteq> []) (split_on slash (abspath w p));
            i = commonprefix_len start_list path_list;
            rel_list = replicate (length start_list - i) ''..'' @ drop i path_list
        in if rel_list = [] then Inr ''.''
           else Inr (foldl join (hd rel_list) (tl rel_list)))"

subsection \<open>\<open>zipfile.ZipFile\<close>\<close>

text \<open>Reading: \<open>ZipFile(s, "r")\<close> reads the member directory once; a member is opened
  and its bytes are read later, through the reader. As long as the file still is the
  container that was opened, or the container fits the reader's buffer, \<open>z.open(name)\<close>
  and \<open>read()\<close> answer from the member list; a larger container that has been overwritten
  in between no longer yields its members. \<open>z.open(name)\<close> goes by name, and of two
  members with one name the later one answers.\<close>

record zipfile_r =
  zpath :: string
  filelist :: "zentry list"

definition ZipFile_r :: "string \<Rightarrow> zipfile_r io" where
  "ZipFile_r s =
     bind (read_file s) (\<lambda>d.
       case d of
         Bytes bs \<Rightarrow> raise BadZipFile
       | Zip es \<Rightarrow> return \<lparr>zpath = s, filelist = es\<rparr>)"

definition namelist :: "zipfile_r \<Rightarrow> string list" where
  "namelist z = map fst (filelist z)"

definition intact :: "zipfile_r \<Rightarrow> world \<Rightarrow> bool" where
  "intact z w = (fst (read_file (zpath z) w) = Inr (Zip (filelist z)))"

definition zopen :: "zipfile_r \<Rightarrow> string \<Rightarrow> unit io" where
  "zopen z name1 w =
     (if (buffered w \<or> intact z w) \<and> name1 \<in> set (namelist z) then return () w
      else raise BadZipFile w)"

definition zread :: "zipfile_r \<Rightarrow> string \<Rightarrow> fdata io" where
  "zread z name1 w =
     (if buffered w \<or> intact z w then
        (case map_of (rev (filelist z)) name1 of
           Some (m, Some payload) \<Rightarrow> return payload w
         | _ \<Rightarrow> raise DecompressError w)
      else raise EOFError w)"

text \<open>Writing: \<open>ZipFile(s, "w", ZIP_DEFLATED)\<close> creates or truncates the file at once;
  \<open>z.write(full_path, arcname)\<close> appends a member, a file deflated under the normalised
  \<open>arcname\<close> without leading separators, a directory stored under that name and \<open>/\<close>.
  Closing, on every exit path, completes the container with the members written so far,
  so the model keeps the file complete after each member.\<close>

definition ZipFile_w :: "string \<Rightarrow> unit io" where
  "ZipFile_w s = write_file s (Zip [])"

definition append_member :: "string \<Rightarrow> zentry \<Rightarrow> unit io" where
  "append_member s m =
     bind (read_file s) (\<lambda>d.
       case d of
         Zip es \<Rightarrow> write_file s (Zip (es @ [m]))
       | Bytes bs \<Rightarrow> raise BadZipFile)"

definition zwrite :: "string \<Rightarrow> string \<Rightarrow> string \<Rightarrow> unit io" where
  "zwrite s full_path arcname w =
     (let arc = dropWhile (\<lambda>c. c = slash) (normpath arcname)
      in if full_path = [] then (Inl FileNotFoundError, w)
         else case lookup (resolve w full_path) (root w) of
           None \<Rightarrow> (Inl (missing_error (resolve w full_path) (root w)), w)
         | Some (Dir kids) \<Rightarrow> append_member s (arc @ ''/'', ZIP_STORED, Some (Bytes [])) w
         | Some (File d) \<Rightarrow> append_member s (arc, ZIP_DEFLATED, Some d) w)"


section \<open>unzip.py: \<open>ExpandEWSXFile\<close>\<close>

text \<open>
  \<^verbatim>\<open>def ExpandEWSXFile(filepath, output_dir):
    zipfile.ZipExtFile._update_crc = _update_crc # avoid stric crc validation.
    with zipfile.ZipFile(filepath, "r") as z:
        for file in z.namelist():
            out_path = os.path.join(output_dir, f"{file}")
            if is_directory(file):
                os.makedirs(out_path, exist_ok=True)
                continue
            os.makedirs(os.path.dirname(out_path), exist_ok=True)
            try:
                out_file = os.path.normpath(file).replace("\\", "/") if platform.system() == "Darwin" else file
                out_path = os.path.join(output_dir, f"{out_file}")
                with z.open(file) as source, open(out_path, "wb+") as target:
                    target.write(source.read())
            except Exception as e:
                print(f"Error extracting {file}: {e}")\<close>
  With the checksum test patched out, a member's bytes are refused only when they do not
  decompress. \<open>extract_member\<close> is the body of the \<open>try\<close>: the member is opened, then the
  target (which creates or empties it), then the bytes are read and written.
\<close>

definition out_file_of :: "world \<Rightarrow> string \<Rightarrow> string" where
  "out_file_of w file =
     (if darwin w then replace_char backslash slash (normpath file) else file)"

definition extract_member :: "zipfile_r \<Rightarrow> string \<Rightarrow> string \<Rightarrow> unit io" where
  "extract_member z output_dir file w =
     (let out_file = out_file_of w file;
          out_path = join output_dir out_file
      in bind (zopen z file) (\<lambda>u.
         bind (open_wb out_path) (\<lambda>u.
         bind (zread z file) (\<lambda>data.
         write_file out_path data))) w)"

definition expand_entry :: "zipfile_r \<Rightarrow> string \<Rightarrow> string \<Rightarrow> unit io" where
  "expand_entry z output_dir file w =
     (let out_path = join output_dir file
      in if is_directory file then os_makedirs out_path w
         else
           (case os_makedirs (dirname out_path) w of
              (Inl e, w1) \<Rightarrow> (Inl e, w1)
            | (Inr u, w1) \<Rightarrow>
                (case extract_member z output_dir file w1 of
                   (Inl e, w2) \<Rightarrow> print (Error_extracting file e) w2
                 | (Inr u, w2) \<Rightarrow> (Inr (), w2))))"

fun expand_entries :: "zipfile_r \<Rightarrow> string \<Rightarrow> string list \<Rightarrow> unit io" where
  "expand_entries z output_dir [] w = (Inr (), w)"
| "expand_entries z output_dir (file # rest) w =
     (case expand_entry z output_dir file w of
        (Inl e, w1) \<Rightarrow> (Inl e, w1)
      | (Inr u, w1) \<Rightarrow> expand_entries z output_dir rest w1)"

definition ExpandEWSXFile :: "string \<Rightarrow> string \<Rightarrow> unit io" where
  "ExpandEWSXFile filepath output_dir =
     bind (ZipFile_r filepath) (\<lambda>z. expand_entries z output_dir (namelist z))"


text \<open>The member names of the container at \<open>filepath\<close>, none when it is not one.\<close>

definition members_of :: "world \<Rightarrow> string \<Rightarrow> string list" where
  "members_of w filepath =
     (case fst (read_file filepath w) of Inr (Zip es) \<Rightarrow> map fst es | _ \<Rightarrow> [])"

section \<open>ewsx.py: the class \<open>EWSXFIle\<close>\<close>

text \<open>An attribute the object does not have yet is \<open>None\<close> here; reading it raises
  \<open>AttributeError\<close>. \<open>__init__\<close> sets \<open>existing_file\<close> only.\<close>

record EWSXFIle =
  existing_file :: "string option"
  files_list :: "(string \<times> fdata) list option"
  dirs_list :: "string list option"

definition init :: EWSXFIle where
  "init = \<lparr>existing_file = None, files_list = None, dirs_list = None\<rparr>"

text \<open>\<^verbatim>\<open>def Create(): return EWSXFIle()\<close>\<close>

definition Create :: "EWSXFIle io" where
  "Create = return init"

text \<open>Python's truth value of \<open>self.existing_file\<close>: \<open>None\<close> and the empty string
  are false.\<close>

definition truthy :: "string option \<Rightarrow> bool" where
  "truthy v = (case v of None \<Rightarrow> False | Some s \<Rightarrow> s \<noteq> [])"

fun for_each :: "('a \<Rightarrow> unit io) \<Rightarrow> 'a list \<Rightarrow> unit io" where
  "for_each f [] w = (Inr (), w)"
| "for_each f (x # xs) w =
     (case f x w of (Inl e, w1) \<Rightarrow> (Inl e, w1) | (Inr u, w1) \<Rightarrow> for_each f xs w1)"

text \<open>The staging block, the same in \<open>save\<close> (lines 18 to 28) and in
  \<open>expand_to_dir\<close> (lines 58 to 68):
  \<^verbatim>\<open>if not self.existing_file:
    os.mkdir(os.path.join(temp_dir, "media"))
    with open(os.path.join(temp_dir, "main.db"), "wb+") as f:
        f.write(open("./sample_files/main.db", "rb+").read())
else:
    for dir in self.dirs_list:
        os.makedirs(os.path.join(temp_dir, dir), exist_ok=True)
    for file in self.files_list:
        open(os.path.join(temp_dir, file[0]), "wb+").write(file[1])\<close>\<close>

abbreviation template_path :: string where
  "template_path \<equiv> ''./sample_files/main.db''"

definition stage :: "EWSXFIle \<Rightarrow> string \<Rightarrow> unit io" where
  "stage self temp_dir =
     (if \<not> truthy (existing_file self) then
        bind (os_mkdir (join temp_dir ''media'')) (\<lambda>u.
        bind (open_wb (join temp_dir ''main.db'')) (\<lambda>u.
        bind (read_file template_path) (\<lambda>d.
        write_file (join temp_dir ''main.db'') d)))
      else
        (case dirs_list self of
           None \<Rightarrow> raise AttributeError
         | Some ds \<Rightarrow>
             bind (for_each (\<lambda>dir. os_makedirs (join temp_dir dir)) ds) (\<lambda>u.
               case files_list self of
                 None \<Rightarrow> raise AttributeError
               | Some fs \<Rightarrow>
                   for_each (\<lambda>file. write_file (join temp_dir (fst file)) (snd file)) fs)))"

text \<open>\<open>save\<close>, lines 30 to 34: every file of the staging tree becomes a member.
  \<^verbatim>\<open>for root, _, files in os.walk(temp_dir):
    for file in files:
        full_path = os.path.join(root, file)
        rel_path = os.path.relpath(full_path, temp_dir)
        z.write(full_path, rel_path)\<close>\<close>

definition save_walk :: "string \<Rightarrow> string \<Rightarrow> unit io" where
  "save_walk filename temp_dir w =
     for_each (\<lambda>(root1, dirs, files).
         for_each (\<lambda>file w1.
             (let full_path = join root1 file
              in case relpath w1 full_path temp_dir of
                   Inl e \<Rightarrow> (Inl e, w1)
                 | Inr rel_path \<Rightarrow> zwrite filename full_path rel_path w1))
           files)
       (os_walk w temp_dir) w"

text \<open>\<^verbatim>\<open>def save(self, filename):
    with zipfile.ZipFile(filename, "w", zipfile.ZIP_DEFLATED) as z:
        with tempfile.TemporaryDirectory() as temp_dir:
            ...
    print(f"Successfully saved schedule in `{posixpath.abspath(filename)}`")\<close>\<close>

definition save :: "EWSXFIle \<Rightarrow> string \<Rightarrow> unit io" where
  "save self filename =
     bind (ZipFile_w filename) (\<lambda>u.
     bind (TemporaryDirectory (\<lambda>temp_dir.
             bind (stage self temp_dir) (\<lambda>u. save_walk filename temp_dir))) (\<lambda>u w.
     print (Successfully_saved (abspath w filename)) w))"

text \<open>\<open>from_file\<close>:
  \<^verbatim>\<open>self.files_list = []; self.dirs_list = []; self.existing_file = filename
with tempfile.TemporaryDirectory() as output_dir:
    unzip.ExpandEWSXFile(filename, output_dir)
    for root, dirs, files in os.walk(output_dir):
        for file in files:
            full_path = os.path.join(root, file)
            rel_path = os.path.relpath(full_path, output_dir)
            self.files_list.append((rel_path, open(full_path, "rb+").read()))
        for dir in dirs:
            self.dirs_list.append(dir)
return self\<close>
  The object comes back only when the call returns.\<close>

fun load_files ::
  "string \<Rightarrow> string \<Rightarrow> string list \<Rightarrow> (string \<times> fdata) list \<Rightarrow> (string \<times> fdata) list io" where
  "load_files output_dir root1 [] acc w = (Inr acc, w)"
| "load_files output_dir root1 (file # files) acc w =
     (let full_path = join root1 file
      in case relpath w full_path output_dir of
           Inl e \<Rightarrow> (Inl e, w)
         | Inr rel_path \<Rightarrow>
             (case read_file full_path w of
                (Inl e, w1) \<Rightarrow> (Inl e, w1)
              | (Inr d, w1) \<Rightarrow> load_files output_dir root1 files (acc @ [(rel_path, d)]) w1))"

fun load_walk ::
  "string \<Rightarrow> (string \<times> string list \<times> string list) list \<Rightarrow> EWSXFIle \<Rightarrow> EWSXFIle io" where
  "load_walk output_dir [] self w = (Inr self, w)"
| "load_walk output_dir ((root1, dirs, files) # rest) self w =
     (case files_list self of
        None \<Rightarrow> (Inl AttributeError, w)
      | Some fl \<Rightarrow>
          (case load_files output_dir root1 files fl w of
             (Inl e, w1) \<Rightarrow> (Inl e, w1)
           | (Inr fl', w1) \<Rightarrow>
               (case dirs_list self of
                  None \<Rightarrow> (Inl AttributeError, w1)
                | Some dl \<Rightarrow>
                    load_walk output_dir rest
                      (self\<lparr>files_list := Some fl', dirs_list := Some (dl @ dirs)\<rparr>) w1)))"

definition from_file :: "EWSXFIle \<Rightarrow> string \<Rightarrow> EWSXFIle io" where
  "from_file self filename =
     TemporaryDirectory (\<lambda>output_dir.
       bind (ExpandEWSXFile filename output_dir) (\<lambda>u w.
         load_walk output_dir (os_walk w output_dir)
           (self\<lparr>files_list := Some [], dirs_list := Some [], existing_file := Some filename\<rparr>) w))"

text \<open>\<open>expand_to_dir\<close>:
  \<^verbatim>\<open>os.makedirs(output_dir, exist_ok=True)
with tempfile.TemporaryDirectory() as temp_dir:
    ... the staging block ...
    num = len(os.listdir(output_dir)) + 1
    schedule_path = os.path.join(output_dir, "schedule" + str(num))
    os.makedirs(schedule_path, exist_ok=True)
    for file in os.listdir(temp_dir):
        if unzip.is_directory(file):
            dir_path = os.path.join(schedule_path, file)
            os.mkdir(dir_path)
            shutil.copytree(os.path.join(temp_dir, file), dir_path, dirs_exist_ok=True)
        else:
            shutil.copy(os.path.join(temp_dir, file), schedule_path)
print(f"schedule expanded into `{posixpath.abspath(os.path.join(output_dir, schedule_path))}`")\<close>\<close>

definition copy_out :: "string \<Rightarrow> string \<Rightarrow> string \<Rightarrow> unit io" where
  "copy_out temp_dir schedule_path file =
     (if is_directory file then
        (let dir_path = join schedule_path file
         in bind (os_mkdir dir_path) (\<lambda>u. shutil_copytree (join temp_dir file) dir_path))
      else shutil_copy (join temp_dir file) schedule_path)"

definition schedule_name :: "nat \<Rightarrow> string" where
  "schedule_name num = ''schedule'' @ str_nat num"

definition expand_to_dir :: "EWSXFIle \<Rightarrow> string \<Rightarrow> unit io" where
  "expand_to_dir self output_dir =
     bind (os_makedirs output_dir) (\<lambda>u.
     bind (TemporaryDirectory (\<lambda>temp_dir.
             bind (stage self temp_dir) (\<lambda>u.
             bind (os_listdir output_dir) (\<lambda>present.
               let num = length present + 1;
                   schedule_path = join output_dir (schedule_name num)
               in bind (os_makedirs schedule_path) (\<lambda>u.
                  bind (os_listdir temp_dir) (\<lambda>staged.
                  bind (for_each (copy_out temp_dir schedule_path) staged) (\<lambda>u.
                  return schedule_path))))))) (\<lambda>schedule_path w.
     print (Schedule_expanded (abspath w (join output_dir schedule_path))) w))"

text \<open>\<open>structure\<close>:
  \<^verbatim>\<open>if self.existing_file:
    files_set = [x[0] for x in self.files_list]
    dirs_set = self.dirs_list
else:
    dirs_set = ["media"]
    files_set = ["main.db"]
explored = []
struct = ""
for f in dirs_set + files_set:
    if unzip.is_directory(f):
        struct += f + "/" + "\n"
        files = []
        for x in files_set:
            if x.startswith(f):
                files.append(x.strip("/" + f))
                explored.append(x)
        if files:
            struct += "    " + "\n    ".join(files) + "\n"
    else:
        if f not in explored:
            struct += f
    explored.append(f)
return struct\<close>\<close>

fun contained :: "string \<Rightarrow> string list \<Rightarrow> string list \<times> string list \<Rightarrow> string list \<times> string list" where
  "contained f [] (files, explored) = (files, explored)"
| "contained f (x # xs) (files, explored) =
     (if startswith x f
      then contained f xs (files @ [strip x (slash # f)], explored @ [x])
      else contained f xs (files, explored))"

fun structure_loop :: "string list \<Rightarrow> string list \<Rightarrow> string \<times> string list \<Rightarrow> string" where
  "structure_loop files_set [] (struct, explored) = struct"
| "structure_loop files_set (f # rest) (struct, explored) =
     (if is_directory f then
        (case contained f files_set ([], explored) of
           (files, explored1) \<Rightarrow>
             structure_loop files_set rest
               (struct @ f @ ''/'' @ [newline]
                  @ (if files \<noteq> [] then ''    '' @ str_join (newline # ''    '') files @ [newline]
                     else []),
                explored1 @ [f]))
      else
        structure_loop files_set rest
          (if f \<notin> set explored then struct @ f else struct, explored @ [f]))"

definition "structure" :: "EWSXFIle \<Rightarrow> error + string" where
  "structure self =
     (if truthy (existing_file self) then
        (case files_list self of
           None \<Rightarrow> Inl AttributeError
         | Some fl \<Rightarrow>
             (case dirs_list self of
                None \<Rightarrow> Inl AttributeError
              | Some dl \<Rightarrow> Inr (structure_loop (map fst fl) (dl @ map fst fl) ([], []))))
      else Inr (structure_loop [''main.db''] ([''media''] @ [''main.db'']) ([], [])))"


section \<open>Predicates of the statements\<close>

text \<open>A name that can be the name of a directory entry.\<close>

definition valid_name :: "string \<Rightarrow> bool" where
  "valid_name c = (c \<noteq> [] \<and> c \<noteq> ''.'' \<and> c \<noteq> ''..'' \<and> slash \<notin> set c)"

text \<open>A tree whose entry names are all names of directory entries, as every real tree
  is; a world is well formed when its tree and its working directory are.\<close>

fun wf_node :: "node \<Rightarrow> bool" where
  "wf_node (File d) = True"
| "wf_node (Dir kids) = list_all (\<lambda>kn. valid_name (fst kn) \<and> wf_node (snd kn)) kids"

definition wf_world :: "world \<Rightarrow> bool" where
  "wf_world w = (wf_node (root w) \<and> list_all valid_name (cwd w))"

text \<open>A directory holds each name once.\<close>

fun unique_names :: "node \<Rightarrow> bool" where
  "unique_names (File d) = True"
| "unique_names (Dir kids) = (distinct (map fst kids) \<and> list_all (\<lambda>kn. unique_names (snd kn)) kids)"

text \<open>What a call leaves alone: the environment, and a given file.\<close>

definition keeps :: "path \<Rightarrow> fdata \<Rightarrow> world \<Rightarrow> world \<Rightarrow> bool" where
  "keeps P X w w' = (cwd w' = cwd w \<and> darwin w' = darwin w \<and> buffered w' = buffered w \<and>
      (lookup P (root w) = Some (File X) \<longrightarrow> lookup P (root w') = Some (File X)))"

text \<open>\<open>frame P w w'\<close>: from \<open>w\<close> to \<open>w'\<close> the environment is the same and nothing
  has changed at any path that is neither below \<open>P\<close> nor above it.\<close>

definition frame :: "path \<Rightarrow> world \<Rightarrow> world \<Rightarrow> bool" where
  "frame P w w' = (cwd w' = cwd w \<and> darwin w' = darwin w \<and> buffered w' = buffered w \<and>
      (\<forall>q. \<not> prefix P q \<and> \<not> prefix q P \<longrightarrow> lookup q (root w') = lookup q (root w)))"

definition keeps_dir :: "path \<Rightarrow> world \<Rightarrow> world \<Rightarrow> bool" where
  "keeps_dir q w w' = (is_dir_node (lookup q (root w)) \<longrightarrow> is_dir_node (lookup q (root w')))"

text \<open>A name without the component \<open>..\<close> is plain. A relative plain name joined to
  a directory stays below it. An object is confined when all the names it records are
  such.\<close>

definition plain :: "string \<Rightarrow> bool" where
  "plain s = (''..'' \<notin> set (split_on slash s))"

definition clean_rel :: "string \<Rightarrow> bool" where
  "clean_rel s = (\<not> startswith s [slash] \<and> ''..'' \<notin> set (split_on slash s))"

definition confined :: "EWSXFIle \<Rightarrow> bool" where
  "confined self =
     (list_all clean_rel (case dirs_list self of None \<Rightarrow> [] | Some ds \<Rightarrow> ds)
      \<and> list_all (\<lambda>file. clean_rel (fst file))
            (case files_list self of None \<Rightarrow> [] | Some fs \<Rightarrow> fs))"

text \<open>The components a relative name adds to the directory it is joined to, and the
  bytes the staging block leaves at a path below the staging directory: those of the last
  recorded file whose name leads there.\<close>

definition rel_path :: "string \<Rightarrow> path" where
  "rel_path s = normalise [] (split_on slash s)"

definition staged_file :: "EWSXFIle \<Rightarrow> path \<Rightarrow> fdata option" where
  "staged_file self q =
     map_of (rev (map (\<lambda>file. (rel_path (fst file), snd file))
                      (case files_list self of None \<Rightarrow> [] | Some fs \<Rightarrow> fs))) q"


text \<open>The entries of a directory, none when there is no such directory, and the name
  \<open>expand_to_dir\<close> numbers its subdirectory with.\<close>

definition entries_of :: "world \<Rightarrow> string \<Rightarrow> string list" where
  "entries_of w s =
     (case lookup (resolve w s) (root w) of Some (Dir kids) \<Rightarrow> map fst kids | _ \<Rightarrow> [])"

definition next_schedule :: "world \<Rightarrow> string \<Rightarrow> string" where
  "next_schedule w output_dir = schedule_name (length (entries_of w output_dir) + 1)"

section \<open>Example worlds\<close>

text \<open>A container that is not one, for a load that fails.\<close>

definition world_bad :: world where
  "world_bad = \<lparr>root = Dir [(''tmp'', Dir []), (''work'', Dir [(''bad.ewsx'', File (Bytes [1, 2, 3]))])],
                 cwd = [''work''], darwin = False, buffered = True, stdout = []\<rparr>"

text \<open>A container of ten members, the first of which does not decompress.\<close>

definition ten_members :: "zentry list" where
  "ten_members =
     [(''bad.bin'', ZIP_DEFLATED, None),
      (''f1.txt'', ZIP_DEFLATED, Some (Bytes [1])),
      (''f2.txt'', ZIP_DEFLATED, Some (Bytes [2])),
      (''f3.txt'', ZIP_DEFLATED, Some (Bytes [3])),
      (''f4.txt'', ZIP_DEFLATED, Some (Bytes [4])),
      (''f5.txt'', ZIP_DEFLATED, Some (Bytes [5])),
      (''f6.txt'', ZIP_DEFLATED, Some (Bytes [6])),
      (''f7.txt'', ZIP_DEFLATED, Some (Bytes [7])),
      (''f8.txt'', ZIP_DEFLATED, Some (Bytes [8])),
      (''f9.txt'', ZIP_DEFLATED, Some (Bytes [9]))]"

definition world_ten :: world where
  "world_ten = \<lparr>root = Dir [(''tmp'', Dir []), (''work'', Dir [(''ten.ewsx'', File (Zip ten_members))])],
                 cwd = [''work''], darwin = False, buffered = True, stdout = []\<rparr>"

text \<open>A container that lies in the directory it is expanded into and has a member of
  its own name.\<close>

definition world_self :: world where
  "world_self = \<lparr>root = Dir [(''tmp'', Dir []),
       (''work'', Dir [(''out'', Dir [(''a.ewsx'', File (Zip [(''a.ewsx'', ZIP_STORED, Some (Bytes [1, 2, 3]))]))])])],
     cwd = [''work''], darwin = False, buffered = True, stdout = []\<rparr>"

text \<open>An archive of the usual layout, an empty directory \<open>media/\<close> and the database,
  in a world without the bundled template.\<close>

definition default_members :: "zentry list" where
  "default_members =
     [(''media/'', ZIP_STORED, Some (Bytes [])),
      (''main.db'', ZIP_DEFLATED, Some (Bytes [1, 2, 3]))]"

definition world_A :: world where
  "world_A = \<lparr>root = Dir [(''tmp'', Dir []), (''work'', Dir [(''A.ewsx'', File (Zip default_members))])],
               cwd = [''work''], darwin = False, buffered = True, stdout = []\<rparr>"

text \<open>A world with the bundled template.\<close>

definition world_template :: world where
  "world_template = \<lparr>root = Dir [(''tmp'', Dir []),
        (''work'', Dir [(''sample_files'', Dir [(''main.db'', File (Bytes [9, 9]))])])],
      cwd = [''work''], darwin = False, buffered = True, stdout = []\<rparr>"

text \<open>An archive with a file two directories deep, and one with a file in \<open>media\<close>.\<close>

definition world_nested :: world where
  "world_nested = \<lparr>root = Dir [(''tmp'', Dir []),
        (''work'', Dir [(''N.ewsx'', File (Zip [(''a/b/c.txt'', ZIP_DEFLATED, Some (Bytes [7]))]))])],
      cwd = [''work''], darwin = False, buffered = True, stdout = []\<rparr>"

definition world_media :: world where
  "world_media = \<lparr>root = Dir [(''tmp'', Dir []),
        (''work'', Dir [(''M.ewsx'', File (Zip [(''media/image.png'', ZIP_DEFLATED, Some (Bytes [7])),
                                                 (''main.db'', ZIP_DEFLATED, Some (Bytes [1, 2, 3]))]))])],
      cwd = [''work''], darwin = False, buffered = True, stdout = []\<rparr>"

text \<open>An output directory with two earlier expansions, and one with the single entry
  \<open>schedule2\<close>.\<close>

definition world_two :: world where
  "world_two = \<lparr>root = Dir [(''tmp'', Dir []),
        (''work'', Dir [(''sample_files'', Dir [(''main.db'', File (Bytes [9, 9]))]),
                        (''out'', Dir [(''schedule1'', Dir [(''media'', Dir []), (''main.db'', File (Bytes [1]))]),
                                       (''schedule2'', Dir [(''media'', Dir []), (''main.db'', File (Bytes [2]))])])])],
      cwd = [''work''], darwin = False, buffered = True, stdout = []\<rparr>"

definition world_gap :: world where
  "world_gap = \<lparr>root = Dir [(''tmp'', Dir []),
        (''work'', Dir [(''sample_files'', Dir [(''main.db'', File (Bytes [9, 9]))]),
                        (''out'', Dir [(''schedule2'', Dir [(''main.db'', File (Bytes [2]))])])])],
      cwd = [''work''], darwin = False, buffered = True, stdout = []\<rparr>"



text \<open>The object a load of \<open>M.ewsx\<close> gives.\<close>

definition media_object :: EWSXFIle where
  "media_object = \<lparr>existing_file = Some ''M.ewsx'',
       files_list = Some [(''main.db'', Bytes [1, 2, 3]), (''media/image.png'', Bytes [7])],
       dirs_list = Some [''media'']\<rparr>"

section \<open>Properties of the path functions\<close>

lemma rfind_from_eq:
  "rfind_from c s i best =
     (if c \<in> set s then i + int (length s) - 1 - int (length (takeWhile (\<lambda>x. x \<noteq> c) (rev s)))
      else best)"
proof (induction s arbitrary: i best)
  case Nil
  then show ?case by simp
next
  case (Cons x xs)
  show ?case
  proof (cases "c \<in> set xs")
    case True
    then show ?thesis using Cons[of "i + 1"] by (auto simp add: takeWhile_append)
  next
    case False
    then have "takeWhile (\<lambda>x. x \<noteq> c) (rev xs) = rev xs"
      by (auto intro!: takeWhile_eq_all_conv[THEN iffD2])
    with False show ?thesis using Cons[of "i + 1"] by (auto simp add: takeWhile_append)
  qed
qed

lemma drop_rev_take: "n \<le> length p \<Longrightarrow> drop (length p - n) p = rev (take n (rev p))"
  by (simp add: rev_take)

lemma basename_final_segment: "basename p = final_segment p"
proof (cases "slash \<in> set p")
  case True
  let ?t = "takeWhile (\<lambda>x. x \<noteq> slash) (rev p)"
  have le: "length ?t \<le> length p"
    using length_takeWhile_le[of _ "rev p"] by simp
  have "nat (rfind slash p + 1) = length p - length ?t"
    using True le by (simp add: rfind_def rfind_from_eq)
  moreover have "?t = take (length ?t) (rev p)"
    by (metis takeWhile_eq_take)
  ultimately show ?thesis
    using drop_rev_take[OF le] by (simp add: basename_def final_segment_def)
next
  case False
  then have t: "takeWhile (\<lambda>x. x \<noteq> slash) (rev p) = rev p"
    by (auto intro!: takeWhile_eq_all_conv[THEN iffD2])
  show ?thesis
    using False by (simp add: basename_def final_segment_def rfind_def rfind_from_eq t)
qed

lemma endswith_single: "endswith s [c] \<longleftrightarrow> (s \<noteq> [] \<and> last s = c)"
  by (cases s rule: rev_cases) (auto simp: endswith_def)

lemma split_on_no_sep: "c \<notin> set s \<Longrightarrow> split_on c s = [s]"
  by (induction s) auto

section \<open>Properties of the filesystem operations\<close>

lemma lookup_put_same:
  "p = [] \<or> is_dir_node (lookup (butlast p) t) \<Longrightarrow> lookup p (put p n t) = Some n"
proof (induction p arbitrary: t)
  case Nil
  then show ?case by simp
next
  case (Cons c cs)
  then have d: "is_dir_node (lookup (butlast (c # cs)) t)" by simp
  show ?case
  proof (cases t)
    case (File x)
    with d show ?thesis by (cases cs) (simp_all add: is_dir_node_def)
  next
    case (Dir kids)
    show ?thesis
    proof (cases cs)
      case Nil
      with Dir show ?thesis by (simp add: update_conv' split: option.splits)
    next
      case (Cons c2 cs2)
      with d Dir obtain m where m: "map_of kids c = Some m" "is_dir_node (lookup (butlast cs) m)"
        by (auto simp: is_dir_node_def split: option.splits)
      with Dir Cons.IH[of m] show ?thesis by (simp add: update_conv')
    qed
  qed
qed

lemma lookup_put_other:
  "\<not> prefix q p \<Longrightarrow> \<not> prefix p q \<Longrightarrow> lookup q (put p n t) = lookup q t"
proof (induction p arbitrary: q t)
  case Nil
  then show ?case by simp
next
  case (Cons c cs)
  then obtain c' qs where q: "q = c' # qs" by (cases q) auto
  show ?case
  proof (cases t)
    case (File x)
    then show ?thesis by simp
  next
    case (Dir kids)
    show ?thesis
    proof (cases "c' = c")
      case True
      with Cons.prems q have "\<not> prefix qs cs" "\<not> prefix cs qs" by auto
      with Dir q True Cons.IH[of qs] show ?thesis
        by (auto simp: update_conv' split: option.splits)
    next
      case False
      with Dir q show ?thesis by (auto simp: update_conv' split: option.splits)
    qed
  qed
qed

lemma put_keeps_file:
  "lookup q t = Some (File d) \<Longrightarrow> \<not> prefix p q \<Longrightarrow> lookup q (put p n t) = Some (File d)"
proof (induction p arbitrary: q t)
  case Nil
  then show ?case by simp
next
  case (Cons c cs)
  show ?case
  proof (cases t)
    case (File x)
    with Cons.prems show ?thesis by simp
  next
    case (Dir kids)
    with Cons.prems obtain c' qs where q: "q = c' # qs" by (cases q) auto
    show ?thesis
    proof (cases "c' = c")
      case True
      with Cons.prems q have np: "\<not> prefix cs qs" by auto
      from Cons.prems Dir q True obtain m where m: "map_of kids c = Some m" "lookup qs m = Some (File d)"
        by (auto split: option.splits)
      with Dir q True Cons.IH[OF m(2) np] show ?thesis by (simp add: update_conv')
    next
      case False
      with Dir q Cons.prems show ?thesis by (auto simp: update_conv' split: option.splits)
    qed
  qed
qed

lemma lookup_prefix_dir:
  "lookup (p @ r) t = Some x \<Longrightarrow> r \<noteq> [] \<Longrightarrow> \<exists>kids. lookup p t = Some (Dir kids)"
proof (induction p arbitrary: t)
  case Nil
  then show ?case by (cases t; cases r) auto
next
  case (Cons c cs)
  then show ?case by (cases t) (auto split: option.splits)
qed

lemma lookup_chain: "lookup q (chain cs) = (if prefix q cs then Some (chain (drop (length q) cs)) else None)"
proof (induction cs arbitrary: q)
  case Nil
  then show ?case by (cases q) auto
next
  case (Cons c cs)
  then show ?case by (cases q) auto
qed

lemma makedirs_at_frame:
  "makedirs_at p t = Inr t' \<Longrightarrow> \<not> prefix q p \<Longrightarrow> lookup q t' = lookup q t"
proof (induction p t arbitrary: q t' rule: makedirs_at.induct)
  case (1 kids)
  then show ?case by simp
next
  case (2 d)
  then show ?case by simp
next
  case (3 c cs d)
  then show ?case by simp
next
  case (4 c cs kids)
  from "4.prems" obtain c' qs where q: "q = c' # qs" by (cases q) auto
  show ?case
  proof (cases "map_of kids c")
    case None
    with "4.prems" have t': "t' = Dir (kids @ [(c, chain cs)])" by simp
    show ?thesis
    proof (cases "c' = c")
      case True
      with "4.prems" q have "\<not> prefix qs cs" by simp
      with t' q True None show ?thesis by (simp add: map_add_def lookup_chain)
    next
      case False
      with t' q show ?thesis by (simp add: map_add_def split: option.splits)
    qed
  next
    case (Some m)
    with "4.prems" obtain m' where m': "makedirs_at cs m = Inr m'" "t' = Dir (AList.update c m' kids)"
      by (auto split: sum.splits)
    show ?thesis
    proof (cases "c' = c")
      case True
      with "4.prems" q have "\<not> prefix qs cs" by simp
      with "4.IH"[OF Some m'(1)] m' q True Some show ?thesis by (simp add: update_conv')
    next
      case False
      with m' q show ?thesis by (simp add: update_conv')
    qed
  qed
qed

lemma makedirs_at_keeps_file:
  "makedirs_at p t = Inr t' \<Longrightarrow> lookup q t = Some (File d) \<Longrightarrow> lookup q t' = Some (File d)"
proof (induction p t arbitrary: q t' rule: makedirs_at.induct)
  case (1 kids)
  then show ?case by simp
next
  case (2 d)
  then show ?case by simp
next
  case (3 c cs d)
  then show ?case by simp
next
  case (4 c cs kids)
  from "4.prems" obtain c' qs where q: "q = c' # qs" by (cases q) auto
  show ?case
  proof (cases "map_of kids c")
    case None
    with "4.prems" have t': "t' = Dir (kids @ [(c, chain cs)])" by simp
    with "4.prems" q None show ?thesis by (auto simp: map_add_def split: option.splits)
  next
    case (Some m)
    with "4.prems" obtain m' where m': "makedirs_at cs m = Inr m'" "t' = Dir (AList.update c m' kids)"
      by (auto split: sum.splits)
    show ?thesis
    proof (cases "c' = c")
      case True
      with "4.prems" q Some have "lookup qs m = Some (File d)" by simp
      with "4.IH"[OF Some m'(1)] m' q True Some show ?thesis by (simp add: update_conv')
    next
      case False
      with m' q "4.prems" show ?thesis by (simp add: update_conv')
    qed
  qed
qed

lemma write_at_keeps_file:
  assumes "write_at p data t = Inr t'" "lookup q t = Some (File d)" "q \<noteq> p"
  shows "lookup q t' = Some (File d)"
proof -
  have t': "t' = put p (File data) t" and nd: "\<not> is_dir_node (lookup p t)"
    using assms(1) by (auto simp: write_at_def is_dir_node_def split: option.splits node.splits)
  have "\<not> prefix p q"
  proof
    assume "prefix p q"
    then obtain r where r: "q = p @ r" by (auto simp: prefix_def)
    with assms(3) have "r \<noteq> []" by auto
    from lookup_prefix_dir[OF assms(2)[unfolded r] this] nd show False
      by (auto simp: is_dir_node_def)
  qed
  with put_keeps_file[OF assms(2)] t' show ?thesis by simp
qed

lemma lookup_remove_self: "p \<noteq> [] \<Longrightarrow> lookup p (remove p t) = None"
proof (induction p arbitrary: t)
  case Nil
  then show ?case by simp
next
  case (Cons c cs)
  show ?case
  proof (cases t)
    case (File d)
    then show ?thesis by simp
  next
    case (Dir kids)
    show ?thesis
    proof (cases "map_of kids c")
      case None
      with Dir show ?thesis by simp
    next
      case (Some n)
      show ?thesis
      proof (cases "cs = []")
        case True
        with Dir Some show ?thesis by (simp add: delete_conv')
      next
        case False
        with Dir Some Cons.IH[OF False, of n] show ?thesis by (simp add: update_conv')
      qed
    qed
  qed
qed

lemma fresh_name_no_slash: "slash \<notin> set (fresh_name names)"
  by (simp add: fresh_name_def)

lemma fresh_name_not_special: "fresh_name names \<noteq> [] \<and> fresh_name names \<noteq> ''.'' \<and> fresh_name names \<noteq> ''..''"
  by (simp add: fresh_name_def)

lemma resolve_tmp: "resolve w (''/tmp/'' @ fresh_name names) = [''tmp'', fresh_name names]"
  using fresh_name_not_special[of names]
  by (simp add: resolve_def startswith_def split_on_no_sep fresh_name_no_slash)

lemma mkdtemp_cases:
  "mkdtemp w = (r, w1) \<Longrightarrow>
     (r = Inl FileNotFoundError \<and> w1 = w) \<or>
     (\<exists>kids. lookup [''tmp''] (root w) = Some (Dir kids) \<and>
        r = Inr (''/tmp/'' @ fresh_name (map fst kids)) \<and>
        w1 = w\<lparr>root := put [''tmp'', fresh_name (map fst kids)] (Dir []) (root w)\<rparr>)"
  by (auto simp: mkdtemp_def Let_def split: option.splits node.splits)

lemma resolve_cong: "cwd w' = cwd w \<Longrightarrow> resolve w' s = resolve w s"
  by (simp add: resolve_def)

section \<open>Names below a directory\<close>

lemma lookup_append:
  "lookup (p @ q) t = (case lookup p t of None \<Rightarrow> None | Some n \<Rightarrow> lookup q n)"
proof (induction p arbitrary: t)
  case Nil
  then show ?case by simp
next
  case (Cons c cs)
  then show ?case by (cases t) (auto split: option.splits)
qed

lemma lookup_put_append:
  "lookup p t = Some m \<Longrightarrow> lookup p (put (p @ r) n t) = Some (put r n m)"
proof (induction p arbitrary: t)
  case Nil
  then show ?case by simp
next
  case (Cons c cs)
  then show ?case by (cases t) (auto simp: update_conv' split: option.splits)
qed

lemma put_child: "put [c] n (Dir kids) = Dir (AList.update c n kids)"
  by (simp split: option.splits)

lemma missing_error_put_other:
  "\<not> prefix q p \<Longrightarrow> \<not> prefix p q \<Longrightarrow> missing_error q (put p n t) = missing_error q t"
proof (induction p arbitrary: q t)
  case Nil
  then show ?case by simp
next
  case (Cons c cs)
  then obtain c' qs where q: "q = c' # qs" by (cases q) auto
  show ?case
  proof (cases t)
    case (File x)
    then show ?thesis by simp
  next
    case (Dir kids)
    show ?thesis
    proof (cases "c' = c")
      case True
      with Cons.prems q have "\<not> prefix qs cs" "\<not> prefix cs qs" by auto
      with Dir q True Cons.IH[of qs] show ?thesis
        by (auto simp: update_conv' split: option.splits)
    next
      case False
      with Dir q show ?thesis by (auto simp: update_conv' split: option.splits)
    qed
  qed
qed

lemma split_on_nonempty: "split_on c s \<noteq> []"
  by (induction s) (auto split: list.splits)

lemma split_on_snoc_sep: "split_on c (a @ c # b) = split_on c a @ split_on c b"
proof (induction a)
  case Nil
  then show ?case by simp
next
  case (Cons x xs)
  then show ?case using split_on_nonempty[of c xs]
    by (auto split: list.splits)
qed

lemma split_on_append_plain:
  "c \<notin> set b \<Longrightarrow> split_on c (a @ b) = butlast (split_on c a) @ [last (split_on c a) @ b]"
proof (induction a)
  case Nil
  then show ?case by (simp add: split_on_no_sep)
next
  case (Cons x xs)
  then show ?case using split_on_nonempty[of c xs]
    by (auto split: list.splits)
qed

lemma normalise_append: "normalise acc (xs @ ys) = normalise (normalise acc xs) ys"
  by (induction xs arbitrary: acc) auto

lemma split_on_ends_sep: "endswith s [c] \<Longrightarrow> last (split_on c s) = []"
proof -
  assume "endswith s [c]"
  then obtain a where "s = a @ [c]"
    by (cases s rule: rev_cases) (auto simp: endswith_single)
  then show ?thesis by (simp add: split_on_snoc_sep)
qed

lemma resolve_join_child:
  assumes "valid_name c" "d \<noteq> []"
  shows "resolve w (join d c) = resolve w d @ [c]"
proof -
  from assms(1) have ns: "\<not> startswith c [slash]"
    by (cases c) (auto simp: valid_name_def startswith_def)
  from assms(1) have c: "c \<noteq> []" "c \<noteq> ''.''" "c \<noteq> ''..''" "slash \<notin> set c"
    by (auto simp: valid_name_def)
  have sw: "\<And>x. startswith (d @ x) [slash] = startswith d [slash]"
    using assms(2) by (cases d) (auto simp: startswith_def)
  show ?thesis
  proof (cases "endswith d [slash]")
    case True
    then have l: "last (split_on slash d) = []" by (rule split_on_ends_sep)
    have "split_on slash (d @ c) = butlast (split_on slash d) @ [c]"
      using split_on_append_plain[OF c(4), of d] l by simp
    moreover have "split_on slash d = butlast (split_on slash d) @ [[]]"
      using l split_on_nonempty[of slash d] by (metis append_butlast_last_id)
    ultimately show ?thesis
      using True ns c assms(2) sw[of c]
      by (simp add: join_def resolve_def normalise_append) (metis normalise.simps normalise_append)
  next
    case False
    have "split_on slash (d @ slash # c) = split_on slash d @ [c]"
      by (simp add: split_on_snoc_sep split_on_no_sep c)
    then show ?thesis
      using False ns c assms(2) sw[of "slash # c"]
      by (simp add: join_def resolve_def normalise_append)
  qed
qed


lemma put_keeps_dir:
  "lookup q t = Some (Dir k) \<Longrightarrow> \<not> prefix p q \<Longrightarrow> \<exists>k'. lookup q (put p n t) = Some (Dir k')"
proof (induction p arbitrary: q t k)
  case Nil
  then show ?case by simp
next
  case (Cons c cs)
  show ?case
  proof (cases t)
    case (File x)
    with Cons.prems show ?thesis by simp
  next
    case (Dir kids)
    show ?thesis
    proof (cases q)
      case Nil
      with Dir show ?thesis by (simp split: option.splits)
    next
      case q: (Cons c' qs)
      show ?thesis
      proof (cases "c' = c")
        case True
        with Cons.prems q have np: "\<not> prefix cs qs" by auto
        from Cons.prems Dir q True obtain m where m: "map_of kids c = Some m" "lookup qs m = Some (Dir k)"
          by (auto split: option.splits)
        with Dir q True Cons.IH[OF m(2) np] show ?thesis by (simp add: update_conv')
      next
        case False
        with Dir q Cons.prems show ?thesis by (auto simp: update_conv' split: option.splits)
      qed
    qed
  qed
qed

lemma join_nonempty: "c \<noteq> [] \<Longrightarrow> join d c \<noteq> []"
  by (auto simp: join_def)

lemma join_not_endswith_slash: "valid_name c \<Longrightarrow> \<not> endswith (join d c) [slash]"
  by (cases c rule: rev_cases) (auto simp: join_def endswith_single valid_name_def)

lemma os_mkdir_child:
  assumes "lookup (resolve w d) (root w) = Some (Dir kids)" "map_of kids c = None"
    "valid_name c" "d \<noteq> []"
  shows "os_mkdir (join d c) w = (Inr (), w\<lparr>root := put (resolve w d @ [c]) (Dir []) (root w)\<rparr>)"
proof -
  from assms(3) have "c \<noteq> []" by (simp add: valid_name_def)
  then have "join d c \<noteq> []" by (rule join_nonempty)
  moreover have "lookup (resolve w d @ [c]) (root w) = None"
    using assms(1,2) by (simp add: lookup_append)
  ultimately show ?thesis
    using assms by (simp add: os_mkdir_def mkdir_at_def resolve_join_child)
qed

lemma write_file_child:
  assumes "lookup (resolve w d) (root w) = Some (Dir kids)"
    "\<not> is_dir_node (map_of kids c)" "valid_name c" "d \<noteq> []"
  shows "write_file (join d c) data w
           = (Inr (), w\<lparr>root := put (resolve w d @ [c]) (File data) (root w)\<rparr>)"
proof -
  from assms(3) have "c \<noteq> []" by (simp add: valid_name_def)
  then have "join d c \<noteq> []" by (rule join_nonempty)
  moreover have "lookup (resolve w d @ [c]) (root w) = map_of kids c"
    using assms(1) by (simp add: lookup_append split: option.splits)
  ultimately show ?thesis
    using assms join_not_endswith_slash[OF assms(3), of d]
    by (auto simp: write_file_def write_at_def resolve_join_child is_dir_node_def
             split: option.splits node.splits)
qed

lemma lookup_put_child:
  "lookup p t = Some (Dir kids) \<Longrightarrow> lookup p (put (p @ [c]) n t) = Some (Dir (AList.update c n kids))"
  by (simp add: lookup_put_append put_child del: put.simps)

lemma resolve_root_upd [simp]: "resolve (w\<lparr>root := t\<rparr>) s = resolve w s"
  by (simp add: resolve_def)

section \<open>More on directories: what making and removing them keeps, and well-formed trees\<close>

lemma makedirs_at_keeps_dir:
  "makedirs_at p t = Inr t' \<Longrightarrow> lookup q t = Some (Dir k) \<Longrightarrow> \<exists>k'. lookup q t' = Some (Dir k')"
proof (induction p t arbitrary: q t' k rule: makedirs_at.induct)
  case (1 kids)
  then show ?case by simp
next
  case (2 d)
  then show ?case by simp
next
  case (3 c cs d)
  then show ?case by simp
next
  case (4 c cs kids)
  show ?case
  proof (cases q)
    case Nil
    with "4.prems" show ?thesis by (auto split: option.splits sum.splits)
  next
    case q: (Cons c' qs)
    show ?thesis
    proof (cases "map_of kids c")
      case None
      with "4.prems" have t': "t' = Dir (kids @ [(c, chain cs)])" by simp
      with "4.prems" q None show ?thesis by (auto simp: map_add_def split: option.splits)
    next
      case (Some m)
      with "4.prems" obtain m' where m': "makedirs_at cs m = Inr m'" "t' = Dir (AList.update c m' kids)"
        by (auto split: sum.splits)
      show ?thesis
      proof (cases "c' = c")
        case True
        with "4.prems" q Some have "lookup qs m = Some (Dir k)" by simp
        with "4.IH"[OF Some m'(1)] m' q True Some show ?thesis by (simp add: update_conv')
      next
        case False
        with m' q "4.prems" show ?thesis by (simp add: update_conv')
      qed
    qed
  qed
qed

lemma lookup_chain_self: "lookup cs (chain cs) = Some (Dir [])"
  by (induction cs) auto

lemma makedirs_at_lookup:
  "makedirs_at p t = Inr t' \<Longrightarrow>
     lookup p t' = (case lookup p t of None \<Rightarrow> Some (Dir []) | Some n \<Rightarrow> Some n)"
proof (induction p t arbitrary: t' rule: makedirs_at.induct)
  case (1 kids)
  then show ?case by auto
next
  case (2 d)
  then show ?case by simp
next
  case (3 c cs d)
  then show ?case by simp
next
  case (4 c cs kids)
  show ?case
  proof (cases "map_of kids c")
    case None
    with "4.prems" have t': "t' = Dir (kids @ [(c, chain cs)])" by simp
    with None show ?thesis by (simp add: map_add_def lookup_chain_self)
  next
    case (Some m)
    with "4.prems" obtain m' where m': "makedirs_at cs m = Inr m'" "t' = Dir (AList.update c m' kids)"
      by (auto split: sum.splits)
    with "4.IH"[OF Some m'(1)] Some show ?thesis by (simp add: update_conv')
  qed
qed

lemma makedirs_at_is_dir:
  "makedirs_at p t = Inr t' \<Longrightarrow> is_dir_node (lookup p t')"
proof (induction p t arbitrary: t' rule: makedirs_at.induct)
  case (1 kids)
  then show ?case by (auto simp: is_dir_node_def)
next
  case (2 d)
  then show ?case by simp
next
  case (3 c cs d)
  then show ?case by simp
next
  case (4 c cs kids)
  show ?case
  proof (cases "map_of kids c")
    case None
    with "4.prems" have t': "t' = Dir (kids @ [(c, chain cs)])" by simp
    with None show ?thesis by (simp add: map_add_def lookup_chain_self is_dir_node_def)
  next
    case (Some m)
    with "4.prems" obtain m' where m': "makedirs_at cs m = Inr m'" "t' = Dir (AList.update c m' kids)"
      by (auto split: sum.splits)
    with "4.IH"[OF Some m'(1)] Some show ?thesis by (simp add: update_conv')
  qed
qed

lemma lookup_remove_other:
  "\<not> prefix q p \<Longrightarrow> \<not> prefix p q \<Longrightarrow> lookup q (remove p t) = lookup q t"
proof (induction p arbitrary: q t)
  case Nil
  then show ?case by simp
next
  case (Cons c cs)
  then obtain c' qs where q: "q = c' # qs" by (cases q) auto
  show ?case
  proof (cases t)
    case (File x)
    then show ?thesis by simp
  next
    case (Dir kids)
    show ?thesis
    proof (cases "c' = c")
      case True
      with Cons.prems q have "\<not> prefix qs cs" "\<not> prefix cs qs" by auto
      with Dir q True Cons.IH[of qs] show ?thesis
        by (auto simp: update_conv' delete_conv' split: option.splits)
    next
      case False
      with Dir q show ?thesis by (auto simp: update_conv' delete_conv' split: option.splits)
    qed
  qed
qed

lemma remove_keeps_dir:
  "lookup q t = Some (Dir k) \<Longrightarrow> \<not> prefix p q \<Longrightarrow> \<exists>k'. lookup q (remove p t) = Some (Dir k')"
proof (induction p arbitrary: q t k)
  case Nil
  then show ?case by simp
next
  case (Cons c cs)
  show ?case
  proof (cases t)
    case (File x)
    with Cons.prems show ?thesis by simp
  next
    case (Dir kids)
    show ?thesis
    proof (cases q)
      case Nil
      with Dir show ?thesis by (simp split: option.splits)
    next
      case q: (Cons c' qs)
      show ?thesis
      proof (cases "c' = c")
        case True
        with Cons.prems q have np: "\<not> prefix cs qs" by auto
        from Cons.prems Dir q True obtain m where m: "map_of kids c = Some m" "lookup qs m = Some (Dir k)"
          by (auto split: option.splits)
        from np have "cs \<noteq> []" by auto
        with m Dir q True Cons.IH[OF m(2) np] show ?thesis by (simp add: update_conv')
      next
        case False
        with Dir q Cons.prems show ?thesis
          by (auto simp: update_conv' delete_conv' split: option.splits)
      qed
    qed
  qed
qed

lemma wf_update:
  "list_all (\<lambda>kn. valid_name (fst kn) \<and> wf_node (snd kn)) kids \<Longrightarrow> valid_name c \<Longrightarrow> wf_node n
   \<Longrightarrow> list_all (\<lambda>kn. valid_name (fst kn) \<and> wf_node (snd kn)) (AList.update c n kids)"
  by (induction kids) auto

lemma wf_map_of:
  "list_all (\<lambda>kn. valid_name (fst kn) \<and> wf_node (snd kn)) kids \<Longrightarrow> map_of kids c = Some m \<Longrightarrow> wf_node m \<and> valid_name c"
  by (induction kids) (auto split: if_splits)

lemma wf_put:
  "wf_node t \<Longrightarrow> wf_node n \<Longrightarrow> list_all valid_name p \<Longrightarrow> wf_node (put p n t)"
proof (induction p arbitrary: t)
  case Nil
  then show ?case by simp
next
  case (Cons c cs)
  show ?case
  proof (cases t)
    case (File x)
    then show ?thesis by simp
  next
    case (Dir kids)
    show ?thesis
    proof (cases "map_of kids c")
      case None
      with Dir Cons.prems show ?thesis by (auto intro: wf_update)
    next
      case (Some m)
      with Dir Cons.prems have "wf_node m" by (auto dest: wf_map_of)
      with Cons.IH[of m] Cons.prems have "wf_node (put cs n m)" by simp
      with Dir Some Cons.prems show ?thesis by (auto intro: wf_update)
    qed
  qed
qed

lemma wf_chain: "list_all valid_name cs \<Longrightarrow> wf_node (chain cs)"
  by (induction cs) auto

lemma wf_makedirs_at:
  "makedirs_at p t = Inr t' \<Longrightarrow> wf_node t \<Longrightarrow> list_all valid_name p \<Longrightarrow> wf_node t'"
proof (induction p t arbitrary: t' rule: makedirs_at.induct)
  case (1 kids)
  then show ?case by auto
next
  case (2 d)
  then show ?case by simp
next
  case (3 c cs d)
  then show ?case by simp
next
  case (4 c cs kids)
  show ?case
  proof (cases "map_of kids c")
    case None
    with "4.prems" show ?thesis by (auto simp: wf_chain)
  next
    case (Some m)
    with "4.prems" obtain m' where m': "makedirs_at cs m = Inr m'" "t' = Dir (AList.update c m' kids)"
      by (auto split: sum.splits)
    from "4.prems" Some have "wf_node m" by (auto dest: wf_map_of)
    with "4.IH"[OF Some m'(1)] "4.prems" have "wf_node m'" by simp
    with m' "4.prems" show ?thesis by (auto intro: wf_update)
  qed
qed

lemma wf_lookup: "wf_node t \<Longrightarrow> lookup p t = Some n \<Longrightarrow> wf_node n"
proof (induction p arbitrary: t)
  case Nil
  then show ?case by simp
next
  case (Cons c cs)
  then show ?case by (cases t) (auto split: option.splits dest: wf_map_of)
qed

lemma wf_kids_names: "wf_node (Dir kids) \<Longrightarrow> list_all valid_name (map fst kids)"
  by (induction kids) auto

lemma normalise_valid:
  "list_all valid_name acc \<Longrightarrow> list_all (\<lambda>c. slash \<notin> set c) cs \<Longrightarrow> list_all valid_name (normalise acc cs)"
proof (induction cs arbitrary: acc)
  case Nil
  then show ?case by simp
next
  case (Cons c cs)
  have b: "list_all valid_name (butlast acc)"
    using Cons.prems(1) by (simp add: list_all_iff) (meson in_set_butlastD)
  from Cons.prems(2) have cs: "list_all (\<lambda>c. slash \<notin> set c) cs" and c: "slash \<notin> set c"
    by simp_all
  show ?case
  proof (cases "c = [] \<or> c = ''.''")
    case True
    with Cons.IH[OF Cons.prems(1) cs] show ?thesis by auto
  next
    case False
    show ?thesis
    proof (cases "c = ''..''")
      case True
      with Cons.IH[OF b cs] show ?thesis by simp
    next
      case nd: False
      with False c have "valid_name c" by (simp add: valid_name_def)
      with Cons.prems(1) have "list_all valid_name (acc @ [c])" by simp
      from Cons.IH[OF this cs] False nd show ?thesis by simp
    qed
  qed
qed

lemma split_on_no_slash: "list_all (\<lambda>p. c \<notin> set p) (split_on c s)"
  by (induction s) (auto split: list.splits)

lemma resolve_valid: "list_all valid_name (cwd w) \<Longrightarrow> list_all valid_name (resolve w s)"
  by (simp add: resolve_def normalise_valid split_on_no_slash)

subsection \<open>The walk of \<open>os.makedirs\<close>\<close>

lemma makedirs_comps_keeps_file:
  "lookup q t = Some (File d) \<Longrightarrow> lookup q (snd (makedirs_comps acc cs t)) = Some (File d)"
proof (induction cs arbitrary: acc t)
  case Nil
  then show ?case by (auto split: sum.splits dest: makedirs_at_keeps_file)
next
  case (Cons c cs)
  then show ?case by (auto split: sum.splits dest: makedirs_at_keeps_file)
qed

lemma makedirs_comps_keeps_dir:
  "lookup q t = Some (Dir k) \<Longrightarrow> \<exists>k'. lookup q (snd (makedirs_comps acc cs t)) = Some (Dir k')"
proof (induction cs arbitrary: acc t k)
  case Nil
  then show ?case by (auto split: sum.splits dest: makedirs_at_keeps_dir)
next
  case (Cons c cs)
  show ?case
  proof (cases "c = ''..''")
    case True
    show ?thesis
    proof (cases "makedirs_at acc t")
      case (Inl e)
      with True Cons.prems show ?thesis by simp
    next
      case (Inr t')
      from makedirs_at_keeps_dir[OF Inr Cons.prems] obtain k1 where "lookup q t' = Some (Dir k1)"
        by blast
      from Cons.IH[OF this] True Inr show ?thesis by simp
    qed
  next
    case False
    with Cons show ?thesis by auto
  qed
qed



lemma makedirs_comps_plain:
  "''..'' \<notin> set cs \<Longrightarrow>
     makedirs_comps acc cs t
       = (case makedirs_at (normalise acc cs) t of Inl e \<Rightarrow> (Some e, t) | Inr t' \<Rightarrow> (None, t'))"
  by (induction cs arbitrary: acc) auto

lemma makedirs_comps_wf:
  "wf_node t \<Longrightarrow> list_all valid_name acc \<Longrightarrow> list_all (\<lambda>c. slash \<notin> set c) cs
     \<Longrightarrow> wf_node (snd (makedirs_comps acc cs t))"
proof (induction cs arbitrary: acc t)
  case Nil
  then show ?case by (auto split: sum.splits dest: wf_makedirs_at)
next
  case (Cons c cs)
  have b: "list_all valid_name (butlast acc)"
    using Cons.prems(2) by (simp add: list_all_iff) (meson in_set_butlastD)
  show ?case
  proof (cases "c = [] \<or> c = ''.''")
    case True
    with Cons show ?thesis by auto
  next
    case False
    show ?thesis
    proof (cases "c = ''..''")
      case True
      show ?thesis
      proof (cases "makedirs_at acc t")
        case (Inl e)
        with True Cons.prems show ?thesis by simp
      next
        case (Inr t')
        from wf_makedirs_at[OF Inr Cons.prems(1,2)] have "wf_node t'" .
        from Cons.IH[OF this b] Cons.prems(3) True Inr show ?thesis by simp
      qed
    next
      case nd: False
      from False nd Cons.prems(3) have "valid_name c" by (simp add: valid_name_def)
      with Cons.prems(2) have "list_all valid_name (acc @ [c])" by simp
      from Cons.IH[OF Cons.prems(1) this] Cons.prems(3) False nd show ?thesis by simp
    qed
  qed
qed

lemma world_root_same: "w\<lparr>root := root w\<rparr> = w"
  by (cases w) simp

lemma os_makedirs_plain:
  "plain s \<Longrightarrow>
     os_makedirs s w =
       (if s = [] then (Inl FileNotFoundError, w)
        else case makedirs_at (resolve w s) (root w) of
          Inl e \<Rightarrow> (Inl e, w)
        | Inr t \<Rightarrow> (Inr (), w\<lparr>root := t\<rparr>))"
  by (auto simp: os_makedirs_def plain_def resolve_def makedirs_comps_plain world_root_same
           split: sum.splits)

lemma split_on_join:
  assumes "\<not> startswith s [slash]" "d \<noteq> []"
  shows "set (split_on slash (join d s)) \<subseteq> set (split_on slash d) \<union> set (split_on slash s)"
proof (cases "endswith d [slash]")
  case True
  then obtain d' where d: "d = d' @ [slash]"
    by (cases d rule: rev_cases) (auto simp: endswith_single)
  from True assms show ?thesis by (auto simp: join_def d split_on_snoc_sep)
next
  case False
  with assms show ?thesis by (auto simp: join_def split_on_snoc_sep)
qed

lemma plain_join: "plain d \<Longrightarrow> clean_rel s \<Longrightarrow> d \<noteq> [] \<Longrightarrow> plain (join d s)"
  using split_on_join[of s d] by (auto simp: plain_def clean_rel_def)

lemma plain_tmp: "slash \<notin> set nm \<Longrightarrow> nm \<noteq> ''..'' \<Longrightarrow> plain (''/tmp/'' @ nm)"
  by (simp add: plain_def split_on_no_sep)

text \<open>A directory that \<open>..\<close> leaves again is made all the same: \<open>out/x/..\<close> makes
  \<open>out\<close> and \<open>out/x\<close>, and an expansion into it finds \<open>x\<close> there and counts it.\<close>

lemma os_makedirs_makes_what_it_leaves:
  "fst (os_makedirs ''out/x/..'' world_template) = Inr ()
   \<and> entries_of (snd (os_makedirs ''out/x/..'' world_template)) ''out'' = [''x'']
   \<and> fst (expand_to_dir init ''out/x/..'' world_template) = Inr ()
   \<and> entries_of (snd (expand_to_dir init ''out/x/..'' world_template)) ''out''
       = [''x'', ''schedule2'']"
  by code_simp

section \<open>The directory-detection heuristic\<close>

text \<open>The final path segment is that of \<open>os.path.basename\<close> on the host, which is what
  follows the last \<open>/\<close>: a backslash ends a name as a separator, but inside a name it
  does not start a new segment.\<close>

lemma is_directory_backslash_inside:
  "final_segment (''a.b'' @ [backslash] @ ''c'') = ''a.b'' @ [backslash] @ ''c''
   \<and> \<not> is_directory (''a.b'' @ [backslash] @ ''c'')
   \<and> is_directory (''a.b'' @ [backslash])"
  by code_simp

text \<open>
  C2. For every entry name \<open>n\<close>, \<open>is_directory n\<close> holds if and only if \<open>n\<close> ends with
  a path separator (\<open>/\<close> or \<open>\\<close>) or the final path segment of \<open>n\<close> (what follows its
  last \<open>/\<close>) contains no dot. In particular \<open>media/\<close> and \<open>media\<close> are directories,
  \<open>main.db\<close> is not, and the extensionless \<open>README\<close> is taken for a directory.
\<close>

theorem is_directory_heuristic:
  "(is_directory n \<longleftrightarrow> ends_with_separator n \<or> dot \<notin> set (final_segment n))
   \<and> is_directory ''media/'' \<and> is_directory ''media''
   \<and> \<not> is_directory ''main.db'' \<and> is_directory ''README''"
proof -
  have "is_directory n \<longleftrightarrow> ends_with_separator n \<or> dot \<notin> set (final_segment n)"
    by (auto simp add: is_directory_def endswith_single ends_with_separator_def
          basename_final_segment)
  moreover have "is_directory ''media/''" by code_simp
  moreover have "is_directory ''media''" by code_simp
  moreover have "\<not> is_directory ''main.db''" by code_simp
  moreover have "is_directory ''README''" by code_simp
  ultimately show ?thesis by blast
qed

section \<open>What the calls leave alone\<close>

lemma keeps_resolve: "keeps P X w w' \<Longrightarrow> resolve w' s = resolve w s"
  by (simp add: keeps_def resolve_def)

lemma keeps_out_file_of: "keeps P X w w' \<Longrightarrow> out_file_of w' f = out_file_of w f"
  by (simp add: keeps_def out_file_of_def)

lemma keeps_refl: "keeps P X w w"
  by (simp add: keeps_def)

lemma keeps_trans: "keeps P X w w1 \<Longrightarrow> keeps P X w1 w2 \<Longrightarrow> keeps P X w w2"
  by (simp add: keeps_def)

lemma os_makedirs_keeps: "os_makedirs s w = (r, w') \<Longrightarrow> keeps P X w w'"
  using makedirs_comps_keeps_file[where q = P and t = "root w" and d = X
          and acc = "if startswith s [slash] then [] else cwd w" and cs = "split_on slash s"]
  by (auto simp: os_makedirs_def keeps_def split: if_splits prod.splits option.splits)

lemma write_file_keeps:
  "write_file s d w = (r, w') \<Longrightarrow> resolve w s \<noteq> P \<Longrightarrow> keeps P X w w'"
  by (auto simp: write_file_def keeps_def split: if_splits sum.splits option.splits node.splits
           dest: write_at_keeps_file)

lemma read_file_same: "read_file s w = (r, w') \<Longrightarrow> w' = w"
  by (auto simp: read_file_def split: if_splits option.splits node.splits)

lemma zopen_same: "zopen z n w = (r, w') \<Longrightarrow> w' = w"
  by (cases "read_file (zpath z) w")
     (auto simp: zopen_def bind_def return_def raise_def dest: read_file_same split: sum.splits if_splits)

lemma zread_same: "zread z n w = (r, w') \<Longrightarrow> w' = w"
  by (cases "read_file (zpath z) w")
     (auto simp: zread_def bind_def return_def raise_def dest: read_file_same
           split: sum.splits if_splits option.splits prod.splits)

lemma extract_member_keeps:
  assumes "extract_member z output_dir file w = (r, w')"
    and "resolve w (join output_dir (out_file_of w file)) \<noteq> P"
  shows "keeps P X w w'"
proof -
  let ?out = "join output_dir (out_file_of w file)"
  obtain r1 w1 where o: "zopen z file w = (r1, w1)" by (meson surj_pair)
  then have w1: "w1 = w" by (rule zopen_same)
  obtain r2 w2 where t: "open_wb ?out w = (r2, w2)" by (meson surj_pair)
  then have k2: "keeps P X w w2" using assms(2) by (auto simp: open_wb_def intro: write_file_keeps)
  obtain r3 w3 where rd: "zread z file w2 = (r3, w3)" by (meson surj_pair)
  then have w3: "w3 = w2" by (rule zread_same)
  show ?thesis
  proof (cases r1)
    case (Inl e)
    with o w1 assms(1) show ?thesis by (simp add: extract_member_def bind_def Let_def keeps_refl)
  next
    case r1: (Inr u)
    show ?thesis
    proof (cases r2)
      case (Inl e)
      with o w1 r1 t k2 assms(1) show ?thesis by (simp add: extract_member_def bind_def Let_def)
    next
      case r2: (Inr u2)
      show ?thesis
      proof (cases r3)
        case (Inl e)
        with o w1 r1 t r2 rd w3 k2 assms(1) show ?thesis
          by (simp add: extract_member_def bind_def Let_def)
      next
        case (Inr data)
        with o w1 r1 t r2 rd w3 assms(1) have wf: "write_file ?out data w2 = (r, w')"
          by (simp add: extract_member_def bind_def Let_def)
        from assms(2) have "resolve w2 ?out \<noteq> P"
          by (simp add: keeps_resolve[OF k2])
        from write_file_keeps[OF wf this] k2 show ?thesis by (rule keeps_trans[rotated])
      qed
    qed
  qed
qed

lemma print_keeps: "print l w = (r, w') \<Longrightarrow> keeps P X w w'"
  by (auto simp: print_def keeps_def)

lemma expand_entry_keeps:
  assumes "expand_entry z output_dir file w = (r, w')"
    and "resolve w (join output_dir (out_file_of w file)) \<noteq> P"
  shows "keeps P X w w'"
proof (cases "is_directory file")
  case True
  with assms(1) show ?thesis by (auto simp: expand_entry_def Let_def intro: os_makedirs_keeps)
next
  case False
  obtain r1 w1 where m: "os_makedirs (dirname (join output_dir file)) w = (r1, w1)" by (meson surj_pair)
  then have k1: "keeps P X w w1" by (rule os_makedirs_keeps)
  show ?thesis
  proof (cases r1)
    case (Inl e)
    with False m assms(1) k1 show ?thesis by (simp add: expand_entry_def Let_def)
  next
    case (Inr u)
    obtain r2 w2 where x: "extract_member z output_dir file w1 = (r2, w2)" by (meson surj_pair)
    from assms(2) have "resolve w1 (join output_dir (out_file_of w1 file)) \<noteq> P"
      by (simp add: keeps_resolve[OF k1] keeps_out_file_of[OF k1])
    from extract_member_keeps[OF x this] have k2: "keeps P X w1 w2" .
    show ?thesis
    proof (cases r2)
      case (Inl e)
      with False m Inr x assms(1) have "print (Error_extracting file e) w2 = (r, w')"
        by (simp add: expand_entry_def Let_def)
      from print_keeps[OF this] k1 k2 show ?thesis by (meson keeps_trans)
    next
      case (Inr u2)
      with False m \<open>r1 = Inr u\<close> x assms(1) have "w' = w2"
        by (simp add: expand_entry_def Let_def)
      with k1 k2 show ?thesis by (meson keeps_trans)
    qed
  qed
qed

lemma expand_entries_keeps:
  assumes "expand_entries z output_dir names w = (r, w')"
    and "\<forall>file\<in>set names. resolve w (join output_dir (out_file_of w file)) \<noteq> P"
  shows "keeps P X w w'"
  using assms
proof (induction names arbitrary: w)
  case Nil
  then show ?case by (simp add: keeps_refl)
next
  case (Cons f rest)
  obtain r1 w1 where e: "expand_entry z output_dir f w = (r1, w1)" by (meson surj_pair)
  with Cons.prems have k1: "keeps P X w w1" by (auto intro: expand_entry_keeps)
  show ?case
  proof (cases r1)
    case (Inl x)
    with e Cons.prems k1 show ?thesis by simp
  next
    case (Inr u)
    with e Cons.prems have "expand_entries z output_dir rest w1 = (r, w')" by simp
    moreover from Cons.prems(2)
    have "\<forall>file\<in>set rest. resolve w1 (join output_dir (out_file_of w1 file)) \<noteq> P"
      by (simp add: keeps_resolve[OF k1] keeps_out_file_of[OF k1])
    ultimately have "keeps P X w1 w'" by (rule Cons.IH)
    with k1 show ?thesis by (rule keeps_trans)
  qed
qed

section \<open>Per-entry failures of the extraction\<close>






subsection \<open>What aborts the extraction\<close>








section \<open>The temporary directory of a load\<close>

text \<open>
  C7. For every call of \<open>from_file\<close>, whatever it returns (the loaded object, or the
  error of a container that cannot be read, of the extraction or of the walk): when no
  temporary directory can be made the call fails and changes nothing; otherwise the
  temporary directory is made, empty, and is gone when the call returns.
\<close>

theorem from_file_removes_temporary_directory:
  assumes "from_file self filename w = (r, w')"
  shows "case mkdtemp w of
           (Inl e, w1) \<Rightarrow> r = Inl e \<and> w' = w
         | (Inr d, w1) \<Rightarrow>
             lookup (resolve w1 d) (root w1) = Some (Dir [])
             \<and> lookup (resolve w' d) (root w') = None"
proof -
  obtain r1 w1 where m: "mkdtemp w = (r1, w1)" by (cases "mkdtemp w")
  from mkdtemp_cases[OF m] show ?thesis
  proof
    assume "r1 = Inl FileNotFoundError \<and> w1 = w"
    with m assms show ?thesis
      by (simp add: from_file_def TemporaryDirectory_def)
  next
    assume "\<exists>kids. lookup [''tmp''] (root w) = Some (Dir kids) \<and>
        r1 = Inr (''/tmp/'' @ fresh_name (map fst kids)) \<and>
        w1 = w\<lparr>root := put [''tmp'', fresh_name (map fst kids)] (Dir []) (root w)\<rparr>"
    then obtain kids where k: "lookup [''tmp''] (root w) = Some (Dir kids)"
      and r1: "r1 = Inr (''/tmp/'' @ fresh_name (map fst kids))"
      and w1: "w1 = w\<lparr>root := put [''tmp'', fresh_name (map fst kids)] (Dir []) (root w)\<rparr>"
      by blast
    let ?d = "''/tmp/'' @ fresh_name (map fst kids)"
    let ?p = "[''tmp'', fresh_name (map fst kids)]"
    have created: "lookup (resolve w1 ?d) (root w1) = Some (Dir [])"
      using k w1 lookup_put_same[of ?p "root w" "Dir []"]
      by (simp add: resolve_tmp[simplified] is_dir_node_def)
    obtain r2 w2 where body:
      "bind (ExpandEWSXFile filename ?d) (\<lambda>u w.
         load_walk ?d (os_walk w ?d)
           (self\<lparr>files_list := Some [], dirs_list := Some [], existing_file := Some filename\<rparr>) w) w1
       = (r2, w2)"
      by (meson surj_pair)
    with m r1 assms have "w' = rmtree ?d w2"
      by (simp add: from_file_def TemporaryDirectory_def)
    then have "lookup (resolve w' ?d) (root w') = None"
      using lookup_remove_self[of ?p "root w2"] by (simp add: rmtree_def resolve_tmp[simplified])
    with created m r1 show ?thesis by simp
  qed
qed

text \<open>A file that is no container: the load fails with \<open>BadZipFile\<close> and the world is
  as before, the temporary directory gone.\<close>

theorem from_file_removes_temporary_directory_witness:
  "from_file init ''bad.ewsx'' world_bad = (Inl BadZipFile, world_bad)
   \<and> (case mkdtemp world_bad of
         (Inl e, w1) \<Rightarrow> False
       | (Inr d, w1) \<Rightarrow>
           lookup (resolve w1 d) (root w1) = Some (Dir [])
           \<and> lookup (resolve world_bad d) (root world_bad) = None)"
proof -
  have h: "from_file init ''bad.ewsx'' world_bad = (Inl BadZipFile, world_bad)"
    by code_simp
  have m: "fst (mkdtemp world_bad) = Inr ''/tmp/tmp''"
    by code_simp
  from from_file_removes_temporary_directory[OF h] m h show ?thesis
    by (cases "mkdtemp world_bad") (auto split: sum.splits)
qed

section \<open>The source archive of an extraction\<close>

text \<open>
  C10, as the code has it. \<open>ExpandEWSXFile\<close> leaves the file at \<open>filepath\<close> as it was,
  on success and when members fail to extract, provided no member is written to
  \<open>filepath\<close> itself: for every member name, the path the member goes to
  (\<open>output_dir\<close> joined with the name) is not the path of the archive.
\<close>

theorem ExpandEWSXFile_keeps_archive:
  assumes "\<forall>file\<in>set (members_of w filepath).
             resolve w (join output_dir (out_file_of w file)) \<noteq> resolve w filepath"
  shows "lookup (resolve w filepath) (root (snd (ExpandEWSXFile filepath output_dir w)))
           = lookup (resolve w filepath) (root w)"
proof -
  obtain r1 w1 where rd: "read_file filepath w = (r1, w1)" by (meson surj_pair)
  then have w1: "w1 = w" by (rule read_file_same)
  show ?thesis
  proof (cases r1)
    case (Inl e)
    with rd w1 show ?thesis by (simp add: ExpandEWSXFile_def ZipFile_r_def bind_def)
  next
    case (Inr d)
    show ?thesis
    proof (cases d)
      case (Bytes bs)
      with Inr rd w1 show ?thesis
        by (simp add: ExpandEWSXFile_def ZipFile_r_def bind_def raise_def)
    next
      case (Zip es)
      let ?z = "\<lparr>zpath = filepath, filelist = es\<rparr>"
      from Zip Inr rd w1 have f: "lookup (resolve w filepath) (root w) = Some (File (Zip es))"
        by (auto simp: read_file_def split: if_splits option.splits node.splits)
      from Zip Inr rd have mem: "members_of w filepath = map fst es"
        by (simp add: members_of_def)
      obtain r w' where x: "expand_entries ?z output_dir (map fst es) w = (r, w')"
        by (meson surj_pair)
      from expand_entries_keeps[OF x, of "resolve w filepath" "Zip es"] assms mem
      have "keeps (resolve w filepath) (Zip es) w w'" by simp
      with f have "lookup (resolve w filepath) (root w') = Some (File (Zip es))"
        by (simp add: keeps_def)
      moreover from Zip Inr rd w1 x have "snd (ExpandEWSXFile filepath output_dir w) = w'"
        by (simp add: ExpandEWSXFile_def ZipFile_r_def bind_def return_def namelist_def)
      ultimately show ?thesis using f by simp
    qed
  qed
qed

text \<open>The container of ten members, expanded into \<open>out\<close> beside it, is unchanged.\<close>

theorem ExpandEWSXFile_keeps_archive_witness:
  "list_all (\<lambda>file. resolve world_ten (join ''out'' (out_file_of world_ten file))
                      \<noteq> resolve world_ten ''ten.ewsx'')
     (members_of world_ten ''ten.ewsx'')
   \<and> members_of world_ten ''ten.ewsx'' \<noteq> []
   \<and> lookup (resolve world_ten ''ten.ewsx'') (root (snd (ExpandEWSXFile ''ten.ewsx'' ''out'' world_ten)))
       = Some (File (Zip ten_members))"
proof -
  have a: "list_all (\<lambda>file. resolve world_ten (join ''out'' (out_file_of world_ten file))
                      \<noteq> resolve world_ten ''ten.ewsx'')
     (members_of world_ten ''ten.ewsx'')"
    by code_simp
  have b: "members_of world_ten ''ten.ewsx'' \<noteq> []" by code_simp
  have c: "lookup (resolve world_ten ''ten.ewsx'') (root world_ten) = Some (File (Zip ten_members))"
    by code_simp
  from a have "\<forall>file\<in>set (members_of world_ten ''ten.ewsx'').
      resolve world_ten (join ''out'' (out_file_of world_ten file)) \<noteq> resolve world_ten ''ten.ewsx''"
    by (simp add: list_all_iff)
  from ExpandEWSXFile_keeps_archive[OF this] a b c show ?thesis by simp
qed

text \<open>
  C10 as stated fails: an archive \<open>out/a.ewsx\<close> with a member named \<open>a.ewsx\<close>, expanded
  into \<open>out\<close>, is opened for writing as the target of its own member. The member, three
  bytes of a small container, is still read from the reader's buffer and written: the
  archive file ends as these three bytes and is a zip container no more; nothing is
  printed, and the call returns normally.
\<close>

theorem ExpandEWSXFile_overwrites_archive:
  "lookup (resolve world_self ''out/a.ewsx'') (root world_self)
     = Some (File (Zip [(''a.ewsx'', ZIP_STORED, Some (Bytes [1, 2, 3]))]))
   \<and> buffered world_self
   \<and> fst (ExpandEWSXFile ''out/a.ewsx'' ''out'' world_self) = Inr ()
   \<and> lookup (resolve world_self ''out/a.ewsx'')
         (root (snd (ExpandEWSXFile ''out/a.ewsx'' ''out'' world_self)))
       = Some (File (Bytes [1, 2, 3]))
   \<and> stdout (snd (ExpandEWSXFile ''out/a.ewsx'' ''out'' world_self)) = []"
  by code_simp

section \<open>Creating an archive and the default layout\<close>

lemma lookup_prefix_some:
  "lookup (q @ r) t = Some x \<Longrightarrow> \<exists>y. lookup q t = Some y"
  by (auto simp: lookup_append split: option.splits)

lemma read_file_put_child:
  assumes P: "lookup P (root w) = Some (Dir kids)"
    and np: "\<not> prefix P (resolve w s)"
  shows "fst (read_file s (w\<lparr>root := put (P @ [c]) n (root w)\<rparr>)) = fst (read_file s w)"
proof (cases "s = []")
  case True
  then show ?thesis by (simp add: read_file_def)
next
  case False
  let ?q = "resolve w s"
  let ?p = "P @ [c]"
  have npq: "\<not> prefix ?p ?q" using np by (auto simp: prefix_def)
  show ?thesis
  proof (cases "lookup ?q (root w)")
    case None
    have "\<not> prefix ?q ?p"
    proof
      assume "prefix ?q ?p"
      then have "prefix ?q P \<or> ?q = ?p" by auto
      with np have "prefix ?q P" by auto
      then obtain r where "P = ?q @ r" by (auto simp: prefix_def)
      with P lookup_prefix_some[of ?q r "root w"] None show False by auto
    qed
    with npq None False show ?thesis
      by (simp add: read_file_def lookup_put_other missing_error_put_other)
  next
    case (Some x)
    show ?thesis
    proof (cases x)
      case (File d)
      with Some put_keeps_file[OF _ npq, of "root w" d n] False show ?thesis
        by (simp add: read_file_def)
    next
      case (Dir k)
      with Some put_keeps_dir[OF _ npq, of "root w" k n] False show ?thesis
        by (auto simp: read_file_def)
    qed
  qed
qed

text \<open>
  C5, as the code has it. \<open>Create()\<close> returns a new object with no origin and nothing
  recorded; it reads no file, so it never fails, whether the bundled template exists or
  not. The default layout belongs to staging (in \<open>save\<close> and \<open>expand_to_dir\<close>): in
  a fresh, empty staging directory that does not hold the template, staging an object
  without origin yields the directory \<open>media\<close> and the file \<open>main.db\<close> with the
  template's bytes when the template can be read, and fails with the error of reading
  the template (\<open>FileNotFoundError\<close> when it is missing) when it cannot.
\<close>

theorem Create_is_lazy_and_default_layout_is_staged:
  assumes "lookup (resolve w temp_dir) (root w) = Some (Dir [])"
    and "temp_dir \<noteq> []"
    and "\<not> prefix (resolve w temp_dir) (resolve w template_path)"
  shows "Create w = (Inr init, w)
       \<and> existing_file init = None \<and> files_list init = None \<and> dirs_list init = None
       \<and> (\<forall>d. fst (read_file template_path w) = Inr d \<longrightarrow>
             (\<exists>w'. stage init temp_dir w = (Inr (), w')
                 \<and> lookup (resolve w temp_dir) (root w')
                     = Some (Dir [(''media'', Dir []), (''main.db'', File d)])))
       \<and> (\<forall>e. fst (read_file template_path w) = Inl e \<longrightarrow> fst (stage init temp_dir w) = Inl e)"
proof -
  let ?P = "resolve w temp_dir"
  have v1: "valid_name ''media''" and v2: "valid_name ''main.db''"
    by (simp_all add: valid_name_def)
  let ?w1 = "w\<lparr>root := put (?P @ [''media'']) (Dir []) (root w)\<rparr>"
  have s1: "os_mkdir (join temp_dir ''media'') w = (Inr (), ?w1)"
    using os_mkdir_child[OF assms(1) _ v1 assms(2)] by simp
  have P1: "lookup ?P (root ?w1) = Some (Dir [(''media'', Dir [])])"
    using lookup_put_child[OF assms(1), of "''media''" "Dir []"] by simp
  let ?w2 = "?w1\<lparr>root := put (?P @ [''main.db'']) (File (Bytes [])) (root ?w1)\<rparr>"
  have s2: "open_wb (join temp_dir ''main.db'') ?w1 = (Inr (), ?w2)"
    using write_file_child[of ?w1 temp_dir _ "''main.db''" "Bytes []", OF _ _ v2 assms(2)] P1
    by (simp add: open_wb_def is_dir_node_def)
  have P2: "lookup ?P (root ?w2) = Some (Dir [(''media'', Dir []), (''main.db'', File (Bytes []))])"
    using lookup_put_child[of ?P "root ?w1" _ "''main.db''" "File (Bytes [])"] P1 by simp
  have r1: "fst (read_file template_path ?w1) = fst (read_file template_path w)"
    using read_file_put_child[OF assms(1) assms(3)] by simp
  have r2: "fst (read_file template_path ?w2) = fst (read_file template_path w)"
    using read_file_put_child[of ?P ?w1 _ template_path "''main.db''" "File (Bytes [])"] P1 assms(3) r1
    by simp
  have snd_read: "\<And>v. snd (read_file template_path v) = v"
    by (metis prod.collapse read_file_same)
  have ok: "\<exists>w'. stage init temp_dir w = (Inr (), w')
                 \<and> lookup ?P (root w') = Some (Dir [(''media'', Dir []), (''main.db'', File d)])"
    if d: "fst (read_file template_path w) = Inr d" for d
  proof -
    let ?w3 = "?w2\<lparr>root := put (?P @ [''main.db'']) (File d) (root ?w2)\<rparr>"
    from d r2 have rd: "read_file template_path ?w2 = (Inr d, ?w2)"
      by (metis prod.collapse snd_read)
    have s3: "write_file (join temp_dir ''main.db'') d ?w2 = (Inr (), ?w3)"
      using write_file_child[of ?w2 temp_dir _ "''main.db''" d, OF _ _ v2 assms(2)] P2
      by (simp add: is_dir_node_def)
    have P3: "lookup ?P (root ?w3) = Some (Dir [(''media'', Dir []), (''main.db'', File d)])"
      using lookup_put_child[of ?P "root ?w2" _ "''main.db''" "File d"] P2 by simp
    have "stage init temp_dir w = (Inr (), ?w3)"
      using s1 s2 rd s3 by (simp add: stage_def init_def truthy_def bind_def)
    with P3 show ?thesis by blast
  qed
  have bad: "fst (stage init temp_dir w) = Inl e"
    if e: "fst (read_file template_path w) = Inl e" for e
  proof -
    from e r2 have rd: "read_file template_path ?w2 = (Inl e, ?w2)"
      by (metis prod.collapse snd_read)
    show ?thesis
      using s1 s2 rd by (simp add: stage_def init_def truthy_def bind_def)
  qed
  show ?thesis using ok bad by (simp add: Create_def return_def init_def)
qed

text \<open>In the temporary directory of a world with the template the layout is staged; in
  that of a world without it staging fails with \<open>FileNotFoundError\<close>.\<close>

theorem Create_is_lazy_and_default_layout_is_staged_witness:
  "lookup (resolve (snd (mkdtemp world_template)) ''/tmp/tmp'') (root (snd (mkdtemp world_template)))
     = Some (Dir [])
   \<and> \<not> prefix (resolve (snd (mkdtemp world_template)) ''/tmp/tmp'')
           (resolve (snd (mkdtemp world_template)) template_path)
   \<and> fst (mkdtemp world_template) = Inr ''/tmp/tmp''
   \<and> fst (read_file template_path (snd (mkdtemp world_template))) = Inr (Bytes [9, 9])
   \<and> (\<exists>w'. stage init ''/tmp/tmp'' (snd (mkdtemp world_template)) = (Inr (), w')
          \<and> lookup [''tmp'', ''tmp''] (root w')
              = Some (Dir [(''media'', Dir []), (''main.db'', File (Bytes [9, 9]))]))
   \<and> fst (read_file template_path (snd (mkdtemp world_A))) = Inl FileNotFoundError
   \<and> fst (stage init ''/tmp/tmp'' (snd (mkdtemp world_A))) = Inl FileNotFoundError"
proof -
  let ?w = "snd (mkdtemp world_template)"
  let ?v = "snd (mkdtemp world_A)"
  have a: "lookup (resolve ?w ''/tmp/tmp'') (root ?w) = Some (Dir [])" by code_simp
  have b: "''/tmp/tmp'' \<noteq> []" by simp
  have c: "\<not> prefix (resolve ?w ''/tmp/tmp'') (resolve ?w template_path)" by code_simp
  have d: "fst (read_file template_path ?w) = Inr (Bytes [9, 9])" by code_simp
  have e: "fst (mkdtemp world_template) = Inr ''/tmp/tmp''" by code_simp
  have f: "resolve ?w ''/tmp/tmp'' = [''tmp'', ''tmp'']" by code_simp
  have a': "lookup (resolve ?v ''/tmp/tmp'') (root ?v) = Some (Dir [])" by code_simp
  have c': "\<not> prefix (resolve ?v ''/tmp/tmp'') (resolve ?v template_path)" by code_simp
  have d': "fst (read_file template_path ?v) = Inl FileNotFoundError" by code_simp
  from Create_is_lazy_and_default_layout_is_staged[OF a b c] d f
  have "\<exists>w'. stage init ''/tmp/tmp'' ?w = (Inr (), w')
          \<and> lookup [''tmp'', ''tmp''] (root w')
              = Some (Dir [(''media'', Dir []), (''main.db'', File (Bytes [9, 9]))])"
    by simp
  moreover from Create_is_lazy_and_default_layout_is_staged[OF a' b c'] d'
  have "fst (stage init ''/tmp/tmp'' ?v) = Inl FileNotFoundError"
    by simp
  ultimately show ?thesis using a c d e d' by blast
qed

text \<open>
  C5 as stated fails: in a world without the template \<open>Create()\<close> returns normally,
  and the object it returns has neither \<open>dirs_list\<close> nor \<open>files_list\<close>.
\<close>

theorem Create_ignores_missing_template:
  "fst (read_file template_path world_A) = Inl FileNotFoundError
   \<and> Create world_A = (Inr init, world_A)
   \<and> dirs_list init = None \<and> files_list init = None"
  by code_simp

section \<open>Loading, saving and listing: where the code departs from its description\<close>

text \<open>
  C3 at an archive with the one member \<open>a/b/c.txt\<close>: the load records the directory
  names \<open>a\<close> and \<open>b\<close>, not the relative path \<open>a/b\<close>, so the parent directory of
  the file entry \<open>a/b/c.txt\<close> is not among the directories (and a later \<open>save\<close>
  fails with \<open>FileNotFoundError\<close>, having made \<open>a\<close> and \<open>b\<close> side by side).
\<close>

theorem from_file_records_bare_directory_names:
  "fst (from_file init ''N.ewsx'' world_nested)
     = Inr \<lparr>existing_file = Some ''N.ewsx'',
            files_list = Some [(''a/b/c.txt'', Bytes [7])],
            dirs_list = Some [''a'', ''b'']\<rparr>
   \<and> dirname ''a/b/c.txt'' = ''a/b'' \<and> ''a/b'' \<notin> set [''a'', ''b'']
   \<and> fst (bind (from_file init ''N.ewsx'') (\<lambda>a. save a ''B.ewsx'') world_nested)
       = Inl FileNotFoundError"
  by code_simp

text \<open>
  C1 at the archive of the usual layout (an empty \<open>media/\<close> and \<open>main.db\<close>):
  loaded, saved as \<open>B.ewsx\<close> and loaded again, the directory \<open>media\<close> is gone and
  \<open>structure\<close> no longer lists it.
\<close>

theorem roundtrip_loses_empty_directory:
  "fst (bind (from_file init ''A.ewsx'') (\<lambda>a.
        bind (save a ''B.ewsx'') (\<lambda>u.
        bind (from_file init ''B.ewsx'') (\<lambda>b.
        return (dirs_list a, structure a, dirs_list b, structure b)))) world_A)
     = Inr (Some [''media''], Inr (''media/'' @ [newline] @ ''main.db''),
            Some [], Inr ''main.db'')"
  by code_simp

text \<open>
  C4 at the same archive: the object records the directory \<open>media\<close>, and the container
  that \<open>save\<close> writes has the one member \<open>main.db\<close>, deflated; the walk of the
  staging tree passes only files to the container.
\<close>

theorem save_omits_empty_directory:
  "(case bind (from_file init ''A.ewsx'') (\<lambda>a. bind (save a ''B.ewsx'') (\<lambda>u. return a)) world_A of
      (r, w) \<Rightarrow> (r, lookup (resolve w ''B.ewsx'') (root w)))
     = (Inr \<lparr>existing_file = Some ''A.ewsx'',
              files_list = Some [(''main.db'', Bytes [1, 2, 3])],
              dirs_list = Some [''media'']\<rparr>,
        Some (File (Zip [(''main.db'', ZIP_DEFLATED, Some (Bytes [1, 2, 3]))])))"
  by code_simp

text \<open>
  C9 at an archive with \<open>media/image.png\<close> and \<open>main.db\<close>: \<open>structure\<close> lists
  the file of \<open>media\<close> as \<open>ge.png\<close>, since \<open>x.strip("/" + f)\<close> removes every leading
  and trailing character that occurs in \<open>/media\<close>, not the prefix \<open>media/\<close>.
\<close>

theorem structure_mangles_contained_names:
  "fst (bind (from_file init ''M.ewsx'') (\<lambda>a. return (a, structure a)) world_media)
     = Inr (\<lparr>existing_file = Some ''M.ewsx'',
              files_list = Some [(''main.db'', Bytes [1, 2, 3]), (''media/image.png'', Bytes [7])],
              dirs_list = Some [''media'']\<rparr>,
            Inr (''media/'' @ [newline] @ ''    ge.png'' @ [newline] @ ''main.db''))"
  by code_simp

section \<open>Frames of the calls on well-formed worlds\<close>

lemma frame_refl: "frame P w w"
  by (simp add: frame_def)

lemma frame_trans: "frame P w w1 \<Longrightarrow> frame P w1 w2 \<Longrightarrow> frame P w w2"
  by (simp add: frame_def)

lemma frame_resolve: "frame P w w' \<Longrightarrow> resolve w' s = resolve w s"
  by (simp add: frame_def resolve_def)

lemma keeps_dir_refl: "keeps_dir q w w"
  by (simp add: keeps_dir_def)

lemma keeps_dir_trans: "keeps_dir q w w1 \<Longrightarrow> keeps_dir q w1 w2 \<Longrightarrow> keeps_dir q w w2"
  by (simp add: keeps_dir_def)

lemma incomparable_below:
  assumes "prefix P p" "\<not> prefix P q" "\<not> prefix q P"
  shows "\<not> prefix p q" "\<not> prefix q p"
proof -
  show "\<not> prefix p q" using assms(1,2) by (meson prefix_order.trans)
  show "\<not> prefix q p" using assms(1,3,2) by (meson prefix_same_cases)
qed

lemma frame_put:
  "prefix P p \<Longrightarrow> frame P w (w\<lparr>root := put p n (root w)\<rparr>)"
  by (auto simp: frame_def dest: incomparable_below intro: lookup_put_other)

lemma wf_world_put:
  "wf_world w \<Longrightarrow> wf_node n \<Longrightarrow> list_all valid_name p \<Longrightarrow> wf_world (w\<lparr>root := put p n (root w)\<rparr>)"
  by (simp add: wf_world_def wf_put)

lemma os_makedirs_frame:
  "os_makedirs s w = (r, w') \<Longrightarrow> plain s \<Longrightarrow> prefix P (resolve w s) \<Longrightarrow> frame P w w'"
  by (auto simp: os_makedirs_plain frame_def split: if_splits sum.splits
           dest: incomparable_below intro: makedirs_at_frame)

lemma os_makedirs_wf:
  "os_makedirs s w = (r, w') \<Longrightarrow> wf_world w \<Longrightarrow> wf_world w'"
  using makedirs_comps_wf[where t = "root w" and acc = "if startswith s [slash] then [] else cwd w"
          and cs = "split_on slash s"]
  by (auto simp: os_makedirs_def wf_world_def split_on_no_slash
           split: if_splits prod.splits option.splits)

lemma os_makedirs_keeps_dir:
  "os_makedirs s w = (r, w') \<Longrightarrow> keeps_dir q w w'"
proof -
  assume a: "os_makedirs s w = (r, w')"
  show ?thesis
  proof (cases "lookup q (root w)")
    case None
    then show ?thesis by (simp add: keeps_dir_def is_dir_node_def)
  next
    case (Some n)
    show ?thesis
    proof (cases n)
      case (File d)
      with Some show ?thesis by (simp add: keeps_dir_def is_dir_node_def)
    next
      case (Dir k)
      from makedirs_comps_keeps_dir[where q = q and t = "root w" and k = k
              and acc = "if startswith s [slash] then [] else cwd w" and cs = "split_on slash s"]
        Some Dir a show ?thesis
        by (auto simp: os_makedirs_def keeps_dir_def is_dir_node_def
                 split: if_splits prod.splits option.splits)
    qed
  qed
qed

lemma mkdir_at_put:
  "mkdir_at p t = Inr t' \<Longrightarrow> t' = put p (Dir []) t \<and> lookup p t = None"
  by (auto simp: mkdir_at_def split: option.splits node.splits)

lemma write_at_put:
  "write_at p data t = Inr t' \<Longrightarrow> t' = put p (File data) t \<and> \<not> is_dir_node (lookup p t)"
  by (auto simp: write_at_def is_dir_node_def split: option.splits node.splits)

lemma lookup_below_none: "lookup p t = None \<Longrightarrow> prefix p q \<Longrightarrow> lookup q t = None"
  by (auto simp: prefix_def lookup_append)

lemma mkdir_at_keeps_dir:
  assumes "mkdir_at p t = Inr t'" "is_dir_node (lookup q t)"
  shows "is_dir_node (lookup q t')"
proof -
  from mkdir_at_put[OF assms(1)] have t': "t' = put p (Dir []) t" and n: "lookup p t = None" by auto
  from assms(2) n have "\<not> prefix p q"
    by (auto simp: is_dir_node_def dest: lookup_below_none)
  from assms(2) obtain k where "lookup q t = Some (Dir k)"
    by (auto simp: is_dir_node_def split: option.splits node.splits)
  from put_keeps_dir[OF this \<open>\<not> prefix p q\<close>, of "Dir []"] t' show ?thesis
    by (auto simp: is_dir_node_def)
qed

lemma write_at_keeps_dir:
  assumes "write_at p data t = Inr t'" "is_dir_node (lookup q t)"
  shows "is_dir_node (lookup q t')"
proof -
  from write_at_put[OF assms(1)] have t': "t' = put p (File data) t" and n: "\<not> is_dir_node (lookup p t)" by auto
  have "\<not> prefix p q"
  proof
    assume "prefix p q"
    then obtain r1 where q: "q = p @ r1" by (auto simp: prefix_def)
    show False
    proof (cases "r1 = []")
      case True
      with q assms(2) n show False by simp
    next
      case False
      from assms(2) obtain k where "lookup (p @ r1) t = Some (Dir k)"
        by (auto simp: q is_dir_node_def split: option.splits node.splits)
      from lookup_prefix_dir[OF this False] n show False by (auto simp: is_dir_node_def)
    qed
  qed
  from assms(2) obtain k where "lookup q t = Some (Dir k)"
    by (auto simp: is_dir_node_def split: option.splits node.splits)
  from put_keeps_dir[OF this \<open>\<not> prefix p q\<close>, of "File data"] t' show ?thesis
    by (auto simp: is_dir_node_def)
qed

lemma os_mkdir_frame:
  "os_mkdir s w = (r, w') \<Longrightarrow> prefix P (resolve w s) \<Longrightarrow> frame P w w'"
  by (auto simp: os_mkdir_def frame_refl split: if_splits sum.splits dest!: mkdir_at_put intro: frame_put)

lemma os_mkdir_wf:
  "os_mkdir s w = (r, w') \<Longrightarrow> wf_world w \<Longrightarrow> wf_world w'"
  by (auto simp: os_mkdir_def wf_world_def split: if_splits sum.splits dest!: mkdir_at_put
           intro!: wf_put resolve_valid)

lemma os_mkdir_keeps_dir:
  "os_mkdir s w = (r, w') \<Longrightarrow> keeps_dir q w w'"
  by (auto simp: os_mkdir_def keeps_dir_def split: if_splits sum.splits dest: mkdir_at_keeps_dir)

lemma write_file_frame:
  "write_file s d w = (r, w') \<Longrightarrow> prefix P (resolve w s) \<Longrightarrow> frame P w w'"
  by (auto simp: write_file_def frame_refl split: if_splits sum.splits option.splits node.splits
           dest!: write_at_put intro: frame_put)

lemma write_file_wf:
  "write_file s d w = (r, w') \<Longrightarrow> wf_world w \<Longrightarrow> wf_world w'"
  by (auto simp: write_file_def wf_world_def split: if_splits sum.splits option.splits node.splits
           dest!: write_at_put intro!: wf_put resolve_valid)

lemma write_file_keeps_dir:
  "write_file s d w = (r, w') \<Longrightarrow> keeps_dir q w w'"
  by (auto simp: write_file_def keeps_dir_def split: if_splits sum.splits option.splits node.splits
           dest: write_at_keeps_dir)

lemma for_each_inv:
  assumes "for_each f xs w = (r, w')" "I w"
    and "\<And>x v r1 v'. x \<in> set xs \<Longrightarrow> I v \<Longrightarrow> f x v = (r1, v') \<Longrightarrow> I v'"
  shows "I w'"
  using assms
proof (induction xs arbitrary: w)
  case Nil
  then show ?case by simp
next
  case (Cons x xs)
  obtain r1 w1 where s: "f x w = (r1, w1)" by (meson surj_pair)
  with Cons.prems(2,3) have i1: "I w1" by auto
  show ?case
  proof (cases r1)
    case (Inl e)
    with s Cons.prems(1) i1 show ?thesis by simp
  next
    case (Inr u)
    with s Cons.prems(1) have "for_each f xs w1 = (r, w')" by simp
    from Cons.IH[OF this i1] Cons.prems(3) show ?thesis by auto
  qed
qed

lemma normalise_no_dotdot: "''..'' \<notin> set cs \<Longrightarrow> prefix acc (normalise acc cs)"
proof (induction cs arbitrary: acc)
  case Nil
  then show ?case by simp
next
  case (Cons c cs)
  then have "prefix (acc @ [c]) (normalise (acc @ [c]) cs)" by simp
  then have "prefix acc (normalise (acc @ [c]) cs)" by (meson prefix_order.trans prefixI)
  with Cons show ?case by auto
qed

lemma resolve_join_clean:
  assumes "clean_rel s" "d \<noteq> []"
  shows "prefix (resolve w d) (resolve w (join d s))"
proof -
  from assms(1) have ns: "\<not> startswith s [slash]" and nd: "''..'' \<notin> set (split_on slash s)"
    by (auto simp: clean_rel_def)
  have sw: "\<And>x. startswith (d @ x) [slash] = startswith d [slash]"
    using assms(2) by (cases d) (auto simp: startswith_def)
  let ?acc = "if startswith d [slash] then [] else cwd w"
  show ?thesis
  proof (cases "endswith d [slash]")
    case True
    then obtain d' where d: "d = d' @ [slash]"
      by (cases d rule: rev_cases) (auto simp: endswith_single)
    have "resolve w (join d s) = normalise (normalise ?acc (split_on slash d')) (split_on slash s)"
      using True ns assms(2) sw[of s] by (simp add: join_def resolve_def d split_on_snoc_sep normalise_append)
    moreover have "resolve w d = normalise ?acc (split_on slash d')"
      by (simp add: resolve_def d split_on_snoc_sep normalise_append)
    ultimately show ?thesis using normalise_no_dotdot[OF nd] by simp
  next
    case False
    have "resolve w (join d s) = normalise (normalise ?acc (split_on slash d)) (split_on slash s)"
      using False ns assms(2) sw[of "slash # s"]
      by (simp add: join_def resolve_def split_on_snoc_sep normalise_append)
    moreover have "resolve w d = normalise ?acc (split_on slash d)"
      by (simp add: resolve_def)
    ultimately show ?thesis using normalise_no_dotdot[OF nd] by simp
  qed
qed

lemma valid_name_clean_rel: "valid_name c \<Longrightarrow> clean_rel c"
  by (cases c) (auto simp: valid_name_def clean_rel_def startswith_def split_on_no_sep)

lemma stage_frame:
  assumes "stage a d w = (r, w')" "d \<noteq> []" "confined a" "plain d"
  shows "frame (resolve w d) w w' \<and> (wf_world w \<longrightarrow> wf_world w')"
proof (cases "truthy (existing_file a)")
  case False
  let ?P = "resolve w d"
  let ?I = "\<lambda>v. frame ?P w v \<and> (wf_world w \<longrightarrow> wf_world v)"
  have c1: "clean_rel ''media''" and c2: "clean_rel ''main.db''"
    by (simp_all add: valid_name_clean_rel valid_name_def)
  have step_mk: "?I v'" if "?I v" "os_mkdir (join d s) v = (r1, v')" "clean_rel s" for v v' r1 s
  proof -
    from that(1) have "frame ?P w v" by simp
    then have "resolve v (join d s) = resolve w (join d s)" by (rule frame_resolve)
    with resolve_join_clean[OF that(3) assms(2), of w] have "prefix ?P (resolve v (join d s))" by simp
    from os_mkdir_frame[OF that(2) this] os_mkdir_wf[OF that(2)] that(1) show ?thesis
      by (auto intro: frame_trans)
  qed
  have step_wr: "?I v'" if "?I v" "write_file (join d s) x v = (r1, v')" "clean_rel s" for v v' r1 s x
  proof -
    from that(1) have "frame ?P w v" by simp
    then have "resolve v (join d s) = resolve w (join d s)" by (rule frame_resolve)
    with resolve_join_clean[OF that(3) assms(2), of w] have "prefix ?P (resolve v (join d s))" by simp
    from write_file_frame[OF that(2) this] write_file_wf[OF that(2)] that(1) show ?thesis
      by (auto intro: frame_trans)
  qed
  obtain r1 w1 where s1: "os_mkdir (join d ''media'') w = (r1, w1)" by (meson surj_pair)
  have i1: "?I w1" using step_mk[OF _ s1 c1] by (simp add: frame_refl)
  obtain r2 w2 where s2: "open_wb (join d ''main.db'') w1 = (r2, w2)" by (meson surj_pair)
  have i2: "?I w2" using step_wr[OF i1 s2[unfolded open_wb_def] c2] .
  obtain r3 w3 where s3: "read_file template_path w2 = (r3, w3)" by (meson surj_pair)
  then have w3: "w3 = w2" by (rule read_file_same)
  show ?thesis
  proof (cases r1)
    case (Inl e)
    with False s1 assms(1) i1 show ?thesis by (simp add: stage_def bind_def)
  next
    case a1: (Inr u1)
    show ?thesis
    proof (cases r2)
      case (Inl e)
      with False s1 a1 s2 assms(1) i2 show ?thesis by (simp add: stage_def bind_def)
    next
      case a2: (Inr u2)
      show ?thesis
      proof (cases r3)
        case (Inl e)
        with False s1 a1 s2 a2 s3 w3 assms(1) i2 show ?thesis by (simp add: stage_def bind_def)
      next
        case (Inr x)
        with False s1 a1 s2 a2 s3 w3 assms(1) have "write_file (join d ''main.db'') x w2 = (r, w')"
          by (simp add: stage_def bind_def)
        from step_wr[OF i2 this c2] show ?thesis .
      qed
    qed
  qed
next
  case True
  let ?P = "resolve w d"
  let ?I = "\<lambda>v. frame ?P w v \<and> (wf_world w \<longrightarrow> wf_world v)"
  show ?thesis
  proof (cases "dirs_list a")
    case None
    with True assms(1) show ?thesis by (simp add: stage_def raise_def frame_refl)
  next
    case (Some ds)
    with assms(3) have cds: "list_all clean_rel ds" by (simp add: confined_def)
    obtain r1 w1 where s1: "for_each (\<lambda>dir. os_makedirs (join d dir)) ds w = (r1, w1)" by (meson surj_pair)
    have i1: "?I w1"
    proof (rule for_each_inv[OF s1, where I = ?I])
      show "?I w" by (simp add: frame_refl)
    next
      fix x v r2 v'
      assume x: "x \<in> set ds" and iv: "?I v" and st: "os_makedirs (join d x) v = (r2, v')"
      from x cds have cx: "clean_rel x" by (simp add: list_all_iff)
      from iv have "frame ?P w v" by simp
      then have "resolve v (join d x) = resolve w (join d x)" by (rule frame_resolve)
      with resolve_join_clean[OF cx assms(2), of w] have "prefix ?P (resolve v (join d x))" by simp
      from os_makedirs_frame[OF st plain_join[OF assms(4) cx assms(2)] this] os_makedirs_wf[OF st] iv
      show "?I v'"
        by (auto intro: frame_trans)
    qed
    show ?thesis
    proof (cases r1)
      case (Inl e)
      with True Some s1 assms(1) i1 show ?thesis by (simp add: stage_def bind_def)
    next
      case (Inr u)
      show ?thesis
      proof (cases "files_list a")
        case None
        with True Some s1 Inr assms(1) i1 show ?thesis by (simp add: stage_def bind_def raise_def)
      next
        case fs: (Some fs)
        with assms(3) have cfs: "list_all (\<lambda>f. clean_rel (fst f)) fs" by (simp add: confined_def)
        from True Some s1 Inr fs assms(1)
        have s2: "for_each (\<lambda>f. write_file (join d (fst f)) (snd f)) fs w1 = (r, w')"
          by (simp add: stage_def bind_def)
        show ?thesis
        proof (rule for_each_inv[OF s2, where I = ?I])
          show "?I w1" by (rule i1)
        next
          fix x v r2 v'
          assume x: "x \<in> set fs" and iv: "?I v" and st: "write_file (join d (fst x)) (snd x) v = (r2, v')"
          from x cfs have cx: "clean_rel (fst x)" by (simp add: list_all_iff)
          from iv have "frame ?P w v" by simp
          then have "resolve v (join d (fst x)) = resolve w (join d (fst x))" by (rule frame_resolve)
          with resolve_join_clean[OF cx assms(2), of w] have "prefix ?P (resolve v (join d (fst x)))" by simp
          from write_file_frame[OF st this] write_file_wf[OF st] iv show "?I v'"
            by (auto intro: frame_trans)
        qed
      qed
    qed
  qed
qed

lemma fresh_name_longer: "n \<in> set names \<Longrightarrow> length n \<le> foldr (\<lambda>n m. max (length n) m) names 0"
  by (induction names) auto

lemma fresh_name_fresh: "fresh_name names \<notin> set names"
proof
  assume "fresh_name names \<in> set names"
  from fresh_name_longer[OF this] show False by (simp add: fresh_name_def)
qed

lemma fresh_name_valid: "valid_name (fresh_name names)"
  using fresh_name_not_special[of names] fresh_name_no_slash[of names] by (simp add: valid_name_def)

lemma mkdtemp_fresh:
  assumes "mkdtemp w = (Inr d, w1)"
  shows "\<exists>nm. d = ''/tmp/'' @ nm \<and> valid_name nm \<and> resolve w d = [''tmp'', nm]
            \<and> lookup [''tmp'', nm] (root w) = None
            \<and> w1 = w\<lparr>root := put [''tmp'', nm] (Dir []) (root w)\<rparr>"
proof -
  from mkdtemp_cases[OF assms] obtain kids where
    k: "lookup [''tmp''] (root w) = Some (Dir kids)"
    and d: "d = ''/tmp/'' @ fresh_name (map fst kids)"
    and w1: "w1 = w\<lparr>root := put [''tmp'', fresh_name (map fst kids)] (Dir []) (root w)\<rparr>"
    by auto
  let ?nm = "fresh_name (map fst kids)"
  have "map_of kids ?nm = None"
    using fresh_name_fresh[of "map fst kids"] by (simp add: map_of_eq_None_iff)
  with k have "lookup ([''tmp''] @ [?nm]) (root w) = None"
    unfolding lookup_append by simp
  then have "lookup [''tmp'', ?nm] (root w) = None" by simp
  with d w1 show ?thesis
    using fresh_name_valid[of "map fst kids"] resolve_tmp[of w "map fst kids"] by blast
qed

lemma rmtree_frame: "frame (resolve w s) w (rmtree s w)"
  by (auto simp: frame_def rmtree_def intro: lookup_remove_other)

lemma rmtree_keeps_dir: "\<not> prefix (resolve w s) q \<Longrightarrow> keeps_dir q w (rmtree s w)"
  by (auto simp: keeps_dir_def rmtree_def is_dir_node_def split: option.splits node.splits
           dest: remove_keeps_dir)

lemma shutil_copytree_cases:
  assumes "shutil_copytree src dst w = (r, w')"
  shows "w' = w \<or> (\<exists>e. os_makedirs dst w = (Inl e, w'))
       \<or> (\<exists>u w1 n. os_makedirs dst w = (Inr u, w1) \<and> w' = w1\<lparr>root := put (resolve w dst) n (root w1)\<rparr>)"
proof -
  obtain r1 w1 where m: "os_makedirs dst w = (r1, w1)" by (meson surj_pair)
  with assms show ?thesis
    by (cases r1)
       (auto simp: shutil_copytree_def split: if_splits option.splits node.splits prod.splits)
qed

lemma shutil_copytree_frame:
  assumes "shutil_copytree src dst w = (r, w')" "plain dst" "prefix P (resolve w dst)"
  shows "frame P w w'"
proof -
  from shutil_copytree_cases[OF assms(1)] consider
      "w' = w" | e where "os_makedirs dst w = (Inl e, w')"
    | u w1 n where "os_makedirs dst w = (Inr u, w1)" "w' = w1\<lparr>root := put (resolve w dst) n (root w1)\<rparr>"
    by blast
  then show ?thesis
  proof cases
    case 1
    then show ?thesis by (simp add: frame_refl)
  next
    case 2
    then show ?thesis by (rule os_makedirs_frame[OF _ assms(2,3)])
  next
    case 3
    have "frame P w w1" by (rule os_makedirs_frame[OF 3(1) assms(2,3)])
    moreover have "frame P w1 w'" using frame_put[OF assms(3), of w1 n] 3(2) by simp
    ultimately show ?thesis by (rule frame_trans)
  qed
qed

lemma shutil_copytree_keeps_dir:
  assumes "shutil_copytree src dst w = (r, w')" "\<not> prefix (resolve w dst) q"
  shows "keeps_dir q w w'"
proof -
  from shutil_copytree_cases[OF assms(1)] consider
      "w' = w" | e where "os_makedirs dst w = (Inl e, w')"
    | u w1 n where "os_makedirs dst w = (Inr u, w1)" "w' = w1\<lparr>root := put (resolve w dst) n (root w1)\<rparr>"
    by blast
  then show ?thesis
  proof cases
    case 1
    then show ?thesis by (simp add: keeps_dir_refl)
  next
    case 2
    then show ?thesis by (rule os_makedirs_keeps_dir)
  next
    case 3
    have k1: "keeps_dir q w w1" by (rule os_makedirs_keeps_dir[OF 3(1)])
    show ?thesis unfolding keeps_dir_def
    proof
      assume "is_dir_node (lookup q (root w))"
      with k1 obtain k where "lookup q (root w1) = Some (Dir k)"
        by (auto simp: keeps_dir_def is_dir_node_def split: option.splits node.splits)
      from put_keeps_dir[OF this assms(2), of n] 3(2) show "is_dir_node (lookup q (root w'))"
        by (auto simp: is_dir_node_def)
    qed
  qed
qed

lemma final_segment_join_child: "valid_name c \<Longrightarrow> final_segment (join d c) = c"
proof -
  assume v: "valid_name c"
  then have ns: "slash \<notin> set c" and ne: "c \<noteq> []" by (auto simp: valid_name_def)
  then have tw: "takeWhile (\<lambda>x. x \<noteq> slash) (rev c) = rev c"
    by (auto intro!: takeWhile_eq_all_conv[THEN iffD2])
  from ne ns have nst: "\<not> startswith c [slash]" by (cases c) (auto simp: startswith_def)
  show ?thesis
  proof (cases "d = [] \<or> endswith d [slash]")
    case True
    show ?thesis
    proof (cases "d = []")
      case True
      with nst show ?thesis by (simp add: join_def final_segment_def tw)
    next
      case False
      with True obtain d' where "d = d' @ [slash]"
        by (cases d rule: rev_cases) (auto simp: endswith_single)
      with True nst ns show ?thesis
        by (simp add: join_def final_segment_def takeWhile_append tw)
    qed
  next
    case False
    with nst ns show ?thesis
      by (simp add: join_def final_segment_def takeWhile_append tw)
  qed
qed

lemma shutil_copy_frame:
  assumes "shutil_copy src dst w = (r, w')" "valid_name (final_segment src)" "dst \<noteq> []"
  shows "frame (resolve w dst) w w' \<and> keeps_dir q w w'"
proof -
  let ?target = "if isdir w dst then join dst (basename src) else dst"
  have pt: "prefix (resolve w dst) (resolve w ?target)"
    using resolve_join_child[OF assms(2) assms(3), of w]
    by (auto simp: basename_final_segment)
  obtain r1 w1 where rd: "read_file src w = (r1, w1)" by (meson surj_pair)
  then have w1: "w1 = w" by (rule read_file_same)
  show ?thesis
  proof (cases r1)
    case (Inl e)
    with rd w1 assms(1) show ?thesis
      by (simp add: shutil_copy_def bind_def Let_def frame_refl keeps_dir_refl)
  next
    case (Inr x)
    with rd w1 assms(1) have "write_file ?target x w = (r, w')"
      by (simp add: shutil_copy_def bind_def Let_def)
    from write_file_frame[OF this pt] write_file_keeps_dir[OF this] show ?thesis by simp
  qed
qed

lemma copy_out_frame:
  assumes "copy_out d sp f w = (r, w')" "valid_name f" "sp \<noteq> []" "plain sp"
  shows "frame (resolve w sp) w w' \<and> keeps_dir (resolve w sp) w w'"
proof (cases "is_directory f")
  case True
  let ?S = "resolve w sp"
  have rj: "resolve w (join sp f) = ?S @ [f]" by (rule resolve_join_child[OF assms(2,3)])
  obtain r1 w1 where s1: "os_mkdir (join sp f) w = (r1, w1)" by (meson surj_pair)
  have f1: "frame ?S w w1" using os_mkdir_frame[OF s1, of ?S] rj by simp
  have k1: "keeps_dir ?S w w1" by (rule os_mkdir_keeps_dir[OF s1])
  show ?thesis
  proof (cases r1)
    case (Inl e)
    with True s1 assms(1) f1 k1 show ?thesis by (simp add: copy_out_def bind_def Let_def)
  next
    case (Inr u)
    with True s1 assms(1) have s2: "shutil_copytree (join d f) (join sp f) w1 = (r, w')"
      by (simp add: copy_out_def bind_def Let_def)
    have rj1: "resolve w1 (join sp f) = ?S @ [f]" using rj frame_resolve[OF f1] by simp
    have "plain (join sp f)"
      by (rule plain_join[OF assms(4) valid_name_clean_rel[OF assms(2)] assms(3)])
    from shutil_copytree_frame[OF s2 this, of ?S] have "frame ?S w1 w'" using rj1 by simp
    moreover have "keeps_dir ?S w1 w'" using shutil_copytree_keeps_dir[OF s2, of ?S] rj1 by simp
    ultimately show ?thesis using f1 k1 by (meson frame_trans keeps_dir_trans)
  qed
next
  case False
  have "valid_name (final_segment (join d f))" using assms(2) by (simp add: final_segment_join_child)
  from shutil_copy_frame[OF _ this assms(3)] False assms(1) show ?thesis
    by (simp add: copy_out_def)
qed

lemma bind_InrE:
  assumes "bind m f w = (Inr y, w')"
  obtains x w1 where "m w = (Inr x, w1)" "f x w1 = (Inr y, w')"
  using assms by (auto simp: bind_def split: prod.splits sum.splits)

lemma TemporaryDirectory_InrE:
  assumes "TemporaryDirectory body w = (Inr y, w')"
  obtains d w1 w2 where "mkdtemp w = (Inr d, w1)" "body d w1 = (Inr y, w2)" "w' = rmtree d w2"
  using assms by (auto simp: TemporaryDirectory_def split: prod.splits sum.splits)

lemma os_listdir_Inr:
  "os_listdir s w = (Inr xs, w1) \<Longrightarrow>
     w1 = w \<and> s \<noteq> [] \<and> (\<exists>kids. lookup (resolve w s) (root w) = Some (Dir kids) \<and> xs = map fst kids)"
  by (auto simp: os_listdir_def split: if_splits option.splits node.splits)

lemma os_makedirs_Inr:
  "os_makedirs s w = (Inr u, w1) \<Longrightarrow> plain s \<Longrightarrow>
     s \<noteq> [] \<and> makedirs_at (resolve w s) (root w) = Inr (root w1) \<and> w1 = w\<lparr>root := root w1\<rparr>"
  by (auto simp: os_makedirs_plain split: if_splits sum.splits)

lemma digit_char_not_slash: "d < 10 \<Longrightarrow> digit_char d \<noteq> slash"
proof
  assume d: "d < 10" and "digit_char d = slash"
  then have "(of_char (char_of (48 + d)) :: nat) = of_char slash" by (simp add: digit_char_def)
  with d show False by simp
qed

lemma str_nat_no_slash: "slash \<notin> set (str_nat n)"
proof (induction n rule: str_nat.induct)
  case (1 n)
  show ?case
  proof (cases "n < 10")
    case True
    then show ?thesis using digit_char_not_slash[of n] by (subst str_nat.simps) simp
  next
    case False
    with 1 digit_char_not_slash[of "n mod 10"] show ?thesis
      by (subst str_nat.simps) simp
  qed
qed

lemma schedule_name_valid: "valid_name (schedule_name n)"
  using str_nat_no_slash[of n] by (simp add: schedule_name_def valid_name_def)

lemma not_prefix_sibling: "a \<noteq> b \<Longrightarrow> \<not> prefix (p @ [a]) (p @ [b])"
  by simp

section \<open>What the staging block leaves and what is copied out\<close>

lemma update_absent: "k \<notin> fst ` set al \<Longrightarrow> AList.update k v al = al @ [(k, v)]"
  by (induction al) auto

lemma unique_update:
  "list_all (\<lambda>kn. unique_names (snd kn)) kids \<Longrightarrow> unique_names n
   \<Longrightarrow> list_all (\<lambda>kn. unique_names (snd kn)) (AList.update c n kids)"
  by (induction kids) auto

lemma unique_map_of:
  "list_all (\<lambda>kn. unique_names (snd kn)) kids \<Longrightarrow> map_of kids c = Some m \<Longrightarrow> unique_names m"
  by (induction kids) (auto split: if_splits)

lemma unique_put:
  "unique_names t \<Longrightarrow> unique_names n \<Longrightarrow> unique_names (put p n t)"
proof (induction p arbitrary: t)
  case Nil
  then show ?case by simp
next
  case (Cons c cs)
  show ?case
  proof (cases t)
    case (File d)
    then show ?thesis by simp
  next
    case (Dir kids)
    with Cons.prems have d: "distinct (map fst kids)" and l: "list_all (\<lambda>kn. unique_names (snd kn)) kids"
      by auto
    show ?thesis
    proof (cases "map_of kids c")
      case None
      with Dir d l Cons.prems show ?thesis by (auto simp: distinct_update unique_update)
    next
      case (Some m)
      from unique_map_of[OF l Some] have "unique_names m" .
      from Cons.IH[OF this Cons.prems(2)] Dir Some d l show ?thesis
        by (auto simp: distinct_update unique_update)
    qed
  qed
qed

lemma unique_chain: "unique_names (chain cs)"
  by (induction cs) auto

lemma unique_makedirs_at:
  "makedirs_at p t = Inr t' \<Longrightarrow> unique_names t \<Longrightarrow> unique_names t'"
proof (induction p t arbitrary: t' rule: makedirs_at.induct)
  case (1 kids)
  then show ?case by auto
next
  case (2 d)
  then show ?case by simp
next
  case (3 c cs d)
  then show ?case by simp
next
  case (4 c cs kids)
  from 4(3) have d: "distinct (map fst kids)" and l: "list_all (\<lambda>kn. unique_names (snd kn)) kids"
    by auto
  show ?case
  proof (cases "map_of kids c")
    case None
    then have "c \<notin> fst ` set kids" by (simp add: map_of_eq_None_iff)
    with None 4(2) d l show ?thesis by (auto simp: unique_chain)
  next
    case (Some m)
    from unique_map_of[OF l Some] have um: "unique_names m" .
    show ?thesis
    proof (cases "makedirs_at cs m")
      case (Inl e)
      with Some 4(2) show ?thesis by simp
    next
      case (Inr m')
      from 4(1)[OF Some Inr um] have "unique_names m'" .
      with Some Inr 4(2) d l show ?thesis by (auto simp: distinct_update unique_update)
    qed
  qed
qed

lemma unique_lookup: "unique_names t \<Longrightarrow> lookup p t = Some n \<Longrightarrow> unique_names n"
proof (induction p arbitrary: t)
  case Nil
  then show ?case by simp
next
  case (Cons c cs)
  show ?case
  proof (cases t)
    case (File d)
    with Cons.prems show ?thesis by simp
  next
    case (Dir kids)
    with Cons.prems obtain m where m: "map_of kids c = Some m" and l: "lookup cs m = Some n"
      by (auto split: option.splits)
    from Dir Cons.prems(1) have "list_all (\<lambda>kn. unique_names (snd kn)) kids" by simp
    from unique_map_of[OF this m] have "unique_names m" .
    from Cons.IH[OF this l] show ?thesis .
  qed
qed

lemma makedirs_comps_unique:
  "unique_names t \<Longrightarrow> unique_names (snd (makedirs_comps acc cs t))"
proof (induction cs arbitrary: acc t)
  case Nil
  then show ?case by (auto split: sum.splits dest: unique_makedirs_at)
next
  case (Cons c cs)
  show ?case
  proof (cases "c = ''..''")
    case True
    show ?thesis
    proof (cases "makedirs_at acc t")
      case (Inl e)
      with True Cons.prems show ?thesis by simp
    next
      case (Inr t')
      from unique_makedirs_at[OF Inr Cons.prems] have "unique_names t'" .
      from Cons.IH[OF this] True Inr show ?thesis by simp
    qed
  next
    case False
    with Cons show ?thesis by auto
  qed
qed

lemma unique_remove: "unique_names t \<Longrightarrow> unique_names (remove p t)"
proof (induction p arbitrary: t)
  case Nil
  then show ?case by simp
next
  case (Cons c cs)
  show ?case
  proof (cases t)
    case (File d)
    then show ?thesis by simp
  next
    case (Dir kids)
    with Cons.prems have d: "distinct (map fst kids)" and l: "list_all (\<lambda>kn. unique_names (snd kn)) kids"
      by auto
    have ld: "list_all (\<lambda>kn. unique_names (snd kn)) (AList.delete c kids)"
      using l by (induction kids) auto
    show ?thesis
    proof (cases "map_of kids c")
      case None
      with Dir Cons.prems show ?thesis by simp
    next
      case (Some m)
      from unique_map_of[OF l Some] have "unique_names m" .
      from Cons.IH[OF this] Dir Some d l ld show ?thesis
        by (auto simp: distinct_update unique_update distinct_delete)
    qed
  qed
qed

lemma makedirs_at_existing: "lookup p t = Some (Dir k) \<Longrightarrow> makedirs_at p t = Inr t"
proof (induction p t rule: makedirs_at.induct)
  case (4 c cs kids)
  then obtain m where m: "map_of kids c = Some m" and l: "lookup cs m = Some (Dir k)"
    by (auto split: option.splits)
  from 4(1)[OF m l] m show ?case by (simp add: update_triv)
qed auto

lemma for_each_append:
  "for_each f (xs @ ys) w =
     (case for_each f xs w of (Inl e, w1) \<Rightarrow> (Inl e, w1) | (Inr u, w1) \<Rightarrow> for_each f ys w1)"
  by (induction xs arbitrary: w) (auto split: prod.splits sum.splits)

lemma for_each_inv_pre:
  assumes "for_each f xs w = (Inr u, w')" "I [] w"
    and "\<And>pre x v v' u1. prefix (pre @ [x]) xs \<Longrightarrow> I pre v \<Longrightarrow> f x v = (Inr u1, v') \<Longrightarrow> I (pre @ [x]) v'"
  shows "I xs w'"
  using assms
proof (induction xs arbitrary: w' u rule: rev_induct)
  case Nil
  then show ?case by simp
next
  case (snoc x xs)
  from snoc.prems(1) obtain u1 w1 where a: "for_each f xs w = (Inr u1, w1)"
    and b: "f x w1 = (Inr u, w')"
    by (auto simp: for_each_append split: prod.splits sum.splits)
  have "I xs w1"
  proof (rule snoc.IH[OF a snoc.prems(2)])
    fix pre y v v' u2
    assume p: "prefix (pre @ [y]) xs" and i: "I pre v" and s: "f y v = (Inr u2, v')"
    from p have "prefix (pre @ [y]) (xs @ [x])"
      by (meson prefix_order.trans prefixI)
    from snoc.prems(3)[OF this i s] show "I (pre @ [y]) v'" .
  qed
  from snoc.prems(3)[OF _ this b] show ?case by simp
qed

lemma copytree_fold:
  assumes "\<And>kn. kn \<in> set todo \<Longrightarrow> copytree_node (snd kn) None = (snd kn, False)"
    and "distinct (map fst (acc @ todo))"
  shows "fold (\<lambda>kn (dk, err).
                 (case snd kn of
                    Dir ks \<Rightarrow>
                      (case copytree_node (snd kn) (map_of dk (fst kn)) of
                         (n', e') \<Rightarrow> (AList.update (fst kn) n' dk, err \<or> e'))
                  | File d \<Rightarrow>
                      (case map_of dk (fst kn) of
                         Some (Dir dk2) \<Rightarrow>
                           (case map_of dk2 (fst kn) of
                              Some (Dir dk3) \<Rightarrow> (dk, True)
                            | _ \<Rightarrow> (AList.update (fst kn)
                                       (Dir (AList.update (fst kn) (File d) dk2)) dk, err))
                       | _ \<Rightarrow> (AList.update (fst kn) (File d) dk, err))))
               todo (acc, False) = (acc @ todo, False)"
  using assms
proof (induction todo arbitrary: acc)
  case Nil
  then show ?case by simp
next
  case (Cons kn todo)
  from Cons.prems(2) have nk: "fst kn \<notin> fst ` set acc" by auto
  then have mo: "map_of acc (fst kn) = None" by (simp add: map_of_eq_None_iff)
  have up: "AList.update (fst kn) (snd kn) acc = acc @ [kn]"
    using update_absent[OF nk, of "snd kn"] by simp
  from Cons.prems(2) have d2: "distinct (map fst ((acc @ [kn]) @ todo))" by simp
  have ih: "\<And>x. x \<in> set todo \<Longrightarrow> copytree_node (snd x) None = (snd x, False)"
    using Cons.prems(1) by simp
  note IH = Cons.IH[OF ih d2]
  show ?case
  proof (cases "snd kn")
    case (File d)
    with mo up IH show ?thesis by simp
  next
    case (Dir ks)
    from Cons.prems(1)[of kn] have "copytree_node (snd kn) None = (snd kn, False)" by simp
    with Dir mo up IH show ?thesis by simp
  qed
qed

lemma copytree_same:
  "unique_names n \<Longrightarrow> dst = None \<or> dst = Some (Dir []) \<Longrightarrow> copytree_node n dst = (n, False)"
proof (induction n arbitrary: dst)
  case (File d)
  then show ?case by simp
next
  case (Dir kids)
  have a: "copytree_node (snd kn) None = (snd kn, False)" if "kn \<in> set kids" for kn
  proof -
    from that Dir.prems(1) have "unique_names (snd kn)" by (auto simp: list_all_iff)
    moreover have "snd kn \<in> Basic_BNFs.snds kn" by (cases kn) simp
    ultimately show ?thesis using Dir.IH[OF that, of "snd kn" None] by simp
  qed
  from Dir.prems(1) have d: "distinct (map fst ([] @ kids))" by simp
  from copytree_fold[OF a d] Dir.prems(2) show ?case by auto
qed

lemma normalise_plain: "''..'' \<notin> set cs \<Longrightarrow> normalise acc cs = acc @ normalise [] cs"
proof (induction cs arbitrary: acc)
  case Nil
  then show ?case by simp
next
  case (Cons c cs)
  from Cons.prems have nd: "''..'' \<notin> set cs" and c: "c \<noteq> ''..''" by auto
  show ?case
  proof (cases "c = [] \<or> c = ''.''")
    case True
    then have a: "normalise acc (c # cs) = normalise acc cs"
      and b: "normalise [] (c # cs) = normalise [] cs"
      by auto
    show ?thesis unfolding a b by (rule Cons.IH[OF nd])
  next
    case False
    with c have a: "normalise acc (c # cs) = normalise (acc @ [c]) cs"
      and b: "normalise [] (c # cs) = normalise [c] cs" by auto
    have "normalise (acc @ [c]) cs = (acc @ [c]) @ normalise [] cs" by (rule Cons.IH[OF nd])
    moreover have "normalise [c] cs = [c] @ normalise [] cs" by (rule Cons.IH[OF nd])
    ultimately show ?thesis unfolding a b by (simp only: append_assoc)
  qed
qed

lemma resolve_join_rel:
  assumes "clean_rel s" "d \<noteq> []"
  shows "resolve w (join d s) = resolve w d @ rel_path s"
proof -
  from assms(1) have ns: "\<not> startswith s [slash]" and nd: "''..'' \<notin> set (split_on slash s)"
    by (auto simp: clean_rel_def)
  have sw: "\<And>x. startswith (d @ x) [slash] = startswith d [slash]"
    using assms(2) by (cases d) (auto simp: startswith_def)
  let ?acc = "if startswith d [slash] then [] else cwd w"
  show ?thesis
  proof (cases "endswith d [slash]")
    case True
    then obtain d' where d: "d = d' @ [slash]"
      by (cases d rule: rev_cases) (auto simp: endswith_single)
    have "resolve w (join d s) = normalise (normalise ?acc (split_on slash d')) (split_on slash s)"
      using True ns assms(2) sw[of s] by (simp add: join_def resolve_def d split_on_snoc_sep normalise_append)
    moreover have "resolve w d = normalise ?acc (split_on slash d')"
      by (simp add: resolve_def d split_on_snoc_sep normalise_append)
    ultimately show ?thesis unfolding rel_path_def by (metis normalise_plain[OF nd])
  next
    case False
    have "resolve w (join d s) = normalise (normalise ?acc (split_on slash d)) (split_on slash s)"
      using False ns assms(2) sw[of "slash # s"]
      by (simp add: join_def resolve_def split_on_snoc_sep normalise_append)
    moreover have "resolve w d = normalise ?acc (split_on slash d)"
      by (simp add: resolve_def)
    ultimately show ?thesis unfolding rel_path_def by (metis normalise_plain[OF nd])
  qed
qed

lemma butlast_prefix_dir:
  assumes "lookup p t = Some x" "p \<noteq> []"
  shows "is_dir_node (lookup (butlast p) t)"
proof -
  from assms(2) have "p = butlast p @ [last p]" by simp
  with assms(1) have "lookup (butlast p @ [last p]) t = Some x" by simp
  from lookup_prefix_dir[OF this] show ?thesis by (auto simp: is_dir_node_def)
qed

lemma os_mkdir_Inr:
  assumes "os_mkdir s w = (Inr u, w')"
  shows "lookup (resolve w s) (root w) = None
       \<and> w' = w\<lparr>root := put (resolve w s) (Dir []) (root w)\<rparr>
       \<and> lookup (resolve w s) (root w') = Some (Dir [])"
proof -
  from assms obtain t where m: "mkdir_at (resolve w s) (root w) = Inr t" and w': "w' = w\<lparr>root := t\<rparr>"
    by (auto simp: os_mkdir_def split: if_splits sum.splits)
  from mkdir_at_put[OF m] have t: "t = put (resolve w s) (Dir []) (root w)"
    and n: "lookup (resolve w s) (root w) = None" by auto
  from m n have "is_dir_node (lookup (butlast (resolve w s)) (root w))"
    by (auto simp: mkdir_at_def is_dir_node_def split: option.splits node.splits)
  then have "lookup (resolve w s) t = Some (Dir [])" unfolding t by (intro lookup_put_same) simp
  with t n w' show ?thesis by simp
qed

lemma write_file_Inr:
  assumes "write_file s data w = (Inr u, w')"
  shows "w' = w\<lparr>root := put (resolve w s) (File data) (root w)\<rparr>
       \<and> lookup (resolve w s) (root w') = Some (File data)"
proof -
  from assms obtain t where m: "write_at (resolve w s) data (root w) = Inr t" and w': "w' = w\<lparr>root := t\<rparr>"
    by (auto simp: write_file_def split: if_splits sum.splits option.splits node.splits)
  from write_at_put[OF m] have t: "t = put (resolve w s) (File data) (root w)" by simp
  have "resolve w s = [] \<or> is_dir_node (lookup (butlast (resolve w s)) (root w))"
  proof (cases "lookup (resolve w s) (root w)")
    case None
    with m show ?thesis
      by (auto simp: write_at_def is_dir_node_def split: option.splits node.splits)
  next
    case (Some x)
    then show ?thesis using butlast_prefix_dir[OF Some] by blast
  qed
  then have "lookup (resolve w s) t = Some (File data)" unfolding t by (rule lookup_put_same)
  with t w' show ?thesis by simp
qed

lemma read_file_Inr:
  "read_file s w = (Inr data, w') \<Longrightarrow> w' = w \<and> lookup (resolve w s) (root w) = Some (File data)"
  by (auto simp: read_file_def split: if_splits option.splits node.splits)

lemma not_prefix_children:
  assumes "\<not> prefix S T" "\<not> prefix T S"
  shows "\<not> prefix (S @ a) (T @ b)" "\<not> prefix (T @ b) (S @ a)"
proof -
  show "\<not> prefix (S @ a) (T @ b)"
  proof
    assume "prefix (S @ a) (T @ b)"
    then have "prefix S (T @ b)" by (meson prefix_order.trans prefixI)
    then have "prefix S T \<or> prefix T S" by (auto simp: prefix_append)
    with assms show False by simp
  qed
  show "\<not> prefix (T @ b) (S @ a)"
  proof
    assume "prefix (T @ b) (S @ a)"
    then have "prefix T (S @ a)" by (meson prefix_order.trans prefixI)
    then have "prefix T S \<or> prefix S T" by (auto simp: prefix_append)
    with assms show False by simp
  qed
qed

lemma copy_out_result:
  assumes co: "copy_out d sp f v = (Inr u, v')"
    and vf: "valid_name f" and spne: "sp \<noteq> []" and dne: "d \<noteq> []" and ps: "plain sp"
    and Sd: "is_dir_node (lookup (resolve v sp) (root v))"
    and uq: "unique_names (root v)"
    and nST: "\<not> prefix (resolve v sp) (resolve v d)" and nTS: "\<not> prefix (resolve v d) (resolve v sp)"
  shows "lookup (resolve v sp @ [f]) (root v') = lookup (resolve v d @ [f]) (root v)
       \<and> lookup (resolve v d @ [f]) (root v) \<noteq> None
       \<and> unique_names (root v')
       \<and> frame (resolve v sp @ [f]) v v'"
proof (cases "is_directory f")
  case True
  let ?S = "resolve v sp" and ?T = "resolve v d"
  have rj: "resolve x (join sp f) = resolve x sp @ [f]" for x by (rule resolve_join_child[OF vf spne])
  have rjd: "resolve x (join d f) = resolve x d @ [f]" for x by (rule resolve_join_child[OF vf dne])
  from co True obtain u1 v1 where s1: "os_mkdir (join sp f) v = (Inr u1, v1)"
    and s2: "shutil_copytree (join d f) (join sp f) v1 = (Inr u, v')"
    by (auto simp: copy_out_def Let_def elim!: bind_InrE)
  from os_mkdir_Inr[OF s1] rj[of v] have v1: "v1 = v\<lparr>root := put (?S @ [f]) (Dir []) (root v)\<rparr>"
    and n1: "lookup (?S @ [f]) (root v1) = Some (Dir [])" by auto
  have r1: "resolve v1 s = resolve v s" for s by (simp add: v1)
  have inc: "\<not> prefix (?S @ [f]) (?T @ [f])" "\<not> prefix (?T @ [f]) (?S @ [f])"
    using not_prefix_children[OF nST nTS] by blast+
  have T1: "lookup (?T @ [f]) (root v1) = lookup (?T @ [f]) (root v)"
    using inc by (simp add: v1 lookup_put_other)
  have uq1: "unique_names (root v1)" using uq by (simp add: v1 unique_put)
  have pj: "plain (join sp f)" by (rule plain_join[OF ps valid_name_clean_rel[OF vf] spne])
  from Sd obtain k where "lookup ?S (root v) = Some (Dir k)"
    by (auto simp: is_dir_node_def split: option.splits node.splits)
  from put_keeps_dir[OF this, of "?S @ [f]" "Dir []"] have Sd1: "is_dir_node (lookup ?S (root v1))"
    by (auto simp: v1 is_dir_node_def)
  have mk: "os_makedirs (join sp f) v1 = (Inr (), v1)"
    using n1 makedirs_at_existing[of "?S @ [f]" "root v1" "[]"] join_nonempty[of f sp] vf
    by (simp add: os_makedirs_plain[OF pj] rj r1 world_root_same valid_name_def)
  from s2 obtain skids where src: "lookup (?T @ [f]) (root v1) = Some (Dir skids)"
    by (auto simp: shutil_copytree_def rjd r1 split: if_splits option.splits node.splits)
  from unique_lookup[OF uq1 src] have "unique_names (Dir skids)" .
  from copytree_same[OF this, of "Some (Dir [])"]
  have ct: "copytree_node (Dir skids) (Some (Dir [])) = (Dir skids, False)" by simp
  from s2 src mk n1 ct have v': "v' = v1\<lparr>root := put (?S @ [f]) (Dir skids) (root v1)\<rparr>"
    by (auto simp: shutil_copytree_def rjd rj r1 split: if_splits)
  have "lookup (?S @ [f]) (root v') = Some (Dir skids)"
    unfolding v' using Sd1 by (simp add: lookup_put_same del: put.simps)
  moreover have "unique_names (root v')"
    unfolding v' using uq1 \<open>unique_names (Dir skids)\<close> by (simp add: unique_put del: put.simps)
  moreover have "frame (?S @ [f]) v v1" unfolding v1 by (rule frame_put) simp
  moreover have "frame (?S @ [f]) v1 v'" unfolding v' by (rule frame_put) simp
  ultimately show ?thesis using src T1 by (auto intro: frame_trans)
next
  case False
  let ?S = "resolve v sp" and ?T = "resolve v d"
  have rj: "resolve x (join sp f) = resolve x sp @ [f]" for x by (rule resolve_join_child[OF vf spne])
  have rjd: "resolve x (join d f) = resolve x d @ [f]" for x by (rule resolve_join_child[OF vf dne])
  have isd: "isdir v sp" using Sd spne by (simp add: isdir_def)
  have bn: "basename (join d f) = f" by (simp add: basename_final_segment final_segment_join_child[OF vf])
  from co False isd bn obtain data v1 where rd: "read_file (join d f) v = (Inr data, v1)"
    and wr: "write_file (join sp f) data v1 = (Inr u, v')"
    by (auto simp: copy_out_def shutil_copy_def Let_def elim!: bind_InrE)
  from read_file_Inr[OF rd] rjd[of v] have v1: "v1 = v" and src: "lookup (?T @ [f]) (root v) = Some (File data)"
    by auto
  from write_file_Inr[OF wr] have "lookup (resolve v1 (join sp f)) (root v') = Some (File data)"
    and v': "v' = v1\<lparr>root := put (resolve v1 (join sp f)) (File data) (root v1)\<rparr>"
    by blast+
  with v1 rj[of v] have "lookup (?S @ [f]) (root v') = Some (File data)" by simp
  moreover have "unique_names (root v')"
    unfolding v' using uq v1 by (simp add: unique_put del: put.simps)
  moreover have "frame (?S @ [f]) v v'" using v' v1 rj[of v] frame_put[of "?S @ [f]" "?S @ [f]" v "File data"]
    by simp
  ultimately show ?thesis using src by simp
qed

lemma copy_loop_result:
  assumes cp: "for_each (copy_out d sp) staged v0 = (Inr u, v5)"
    and T0: "lookup (resolve v0 d) (root v0) = Some (Dir kidsT)" and st: "staged = map fst kidsT"
    and vst: "list_all valid_name staged"
    and uq: "unique_names (root v0)"
    and Sd: "is_dir_node (lookup (resolve v0 sp) (root v0))"
    and spne: "sp \<noteq> []" and dne: "d \<noteq> []" and ps: "plain sp"
    and nST: "\<not> prefix (resolve v0 sp) (resolve v0 d)" and nTS: "\<not> prefix (resolve v0 d) (resolve v0 sp)"
    and q: "q \<noteq> []" and lq: "lookup (resolve v0 d @ q) (root v0) = Some x"
  shows "lookup (resolve v0 sp @ q) (root v5) = Some x"
proof -
  let ?S = "resolve v0 sp" and ?T = "resolve v0 d"
  let ?I = "\<lambda>pre v. frame ?S v0 v \<and> keeps_dir ?S v0 v \<and> unique_names (root v)
              \<and> (\<forall>f\<in>set pre. lookup (?S @ [f]) (root v) = lookup (?T @ [f]) (root v0))"
  have i5: "?I staged v5"
  proof (rule for_each_inv_pre[OF cp, where I = ?I])
    show "?I [] v0" using uq by (simp add: frame_refl keeps_dir_refl)
  next
    fix pre f v v' u1
    assume pf: "prefix (pre @ [f]) staged" and iv: "?I pre v" and stp: "copy_out d sp f v = (Inr u1, v')"
    from pf have "f \<in> set staged" by (auto simp: prefix_def)
    with vst have vf: "valid_name f" by (simp add: list_all_iff)
    from iv have fr: "frame ?S v0 v" and kd: "keeps_dir ?S v0 v" and uv: "unique_names (root v)"
      and prev: "\<forall>g\<in>set pre. lookup (?S @ [g]) (root v) = lookup (?T @ [g]) (root v0)" by auto
    have rv: "resolve v s = resolve v0 s" for s using fr by (rule frame_resolve)
    from kd Sd have Sdv: "is_dir_node (lookup (resolve v sp) (root v))" by (simp add: keeps_dir_def rv)
    from copy_out_result[OF stp vf spne dne ps Sdv uv] nST nTS
    have c1: "lookup (?S @ [f]) (root v') = lookup (?T @ [f]) (root v)"
      and c3: "unique_names (root v')" and c4: "frame (?S @ [f]) v v'"
      by (simp_all add: rv)
    from not_prefix_children[OF nST nTS, where a = "[]" and b = "[f]"]
    have "\<not> prefix ?S (?T @ [f])" "\<not> prefix (?T @ [f]) ?S" by simp_all
    with fr have "lookup (?T @ [f]) (root v) = lookup (?T @ [f]) (root v0)"
      unfolding frame_def by blast
    with c1 have new: "lookup (?S @ [f]) (root v') = lookup (?T @ [f]) (root v0)" by simp
    from copy_out_frame[OF stp vf spne ps] have f2: "frame ?S v v'" and k2: "keeps_dir ?S v v'"
      by (simp_all add: rv)
    have old: "lookup (?S @ [g]) (root v') = lookup (?T @ [g]) (root v0)" if g: "g \<in> set pre" for g
    proof (cases "g = f")
      case True
      with new show ?thesis by simp
    next
      case False
      then have "\<not> prefix (?S @ [f]) (?S @ [g])" "\<not> prefix (?S @ [g]) (?S @ [f])" by auto
      with c4 have "lookup (?S @ [g]) (root v') = lookup (?S @ [g]) (root v)" by (simp add: frame_def)
      with prev g show ?thesis by simp
    qed
    from fr f2 have "frame ?S v0 v'" by (rule frame_trans)
    moreover from kd k2 have "keeps_dir ?S v0 v'" by (rule keeps_dir_trans)
    ultimately show "?I (pre @ [f]) v'" using c3 new old by auto
  qed
  from q obtain f r where qf: "q = f # r" by (cases q) auto
  have la: "lookup (P @ f # r) t = (case lookup (P @ [f]) t of None \<Rightarrow> None | Some n \<Rightarrow> lookup r n)"
    for P t using lookup_append[of "P @ [f]" r t] by simp
  from lq obtain n where n: "lookup (?T @ [f]) (root v0) = Some n" and r: "lookup r n = Some x"
    unfolding qf la by (auto split: option.splits)
  from n T0 have "map_of kidsT f = Some n"
    using lookup_append[of ?T "[f]" "root v0"] by (auto split: option.splits)
  then have "f \<in> set staged" unfolding st by (auto dest: map_of_SomeD intro: rev_image_eqI)
  with i5 n have "lookup (?S @ [f]) (root v5) = Some n" by simp
  with r show ?thesis unfolding qf la by simp
qed

lemma os_makedirs_unique:
  "os_makedirs s w = (r, w') \<Longrightarrow> unique_names (root w) \<Longrightarrow> unique_names (root w')"
  using makedirs_comps_unique[where t = "root w" and acc = "if startswith s [slash] then [] else cwd w"
          and cs = "split_on slash s"]
  by (auto simp: os_makedirs_def split: if_splits prod.splits option.splits)

lemma os_mkdir_unique:
  "os_mkdir s w = (r, w') \<Longrightarrow> unique_names (root w) \<Longrightarrow> unique_names (root w')"
  by (auto simp: os_mkdir_def unique_put split: if_splits sum.splits dest!: mkdir_at_put)

lemma write_file_unique:
  "write_file s d w = (r, w') \<Longrightarrow> unique_names (root w) \<Longrightarrow> unique_names (root w')"
  by (auto simp: write_file_def unique_put split: if_splits sum.splits option.splits node.splits
           dest!: write_at_put)

lemma stage_unique:
  assumes "stage a d w = (r, w')" "unique_names (root w)"
  shows "unique_names (root w')"
proof (cases "truthy (existing_file a)")
  case False
  obtain r1 w1 where s1: "os_mkdir (join d ''media'') w = (r1, w1)" by (meson surj_pair)
  obtain r2 w2 where s2: "open_wb (join d ''main.db'') w1 = (r2, w2)" by (meson surj_pair)
  obtain r3 w3 where s3: "read_file template_path w2 = (r3, w3)" by (meson surj_pair)
  from os_mkdir_unique[OF s1 assms(2)] have u1: "unique_names (root w1)" .
  from write_file_unique[OF s2[unfolded open_wb_def] u1] have u2: "unique_names (root w2)" .
  from read_file_same[OF s3] have w3: "w3 = w2" .
  show ?thesis
  proof (cases r1)
    case (Inl e)
    with False s1 assms(1) u1 show ?thesis by (simp add: stage_def bind_def)
  next
    case a1: (Inr x1)
    show ?thesis
    proof (cases r2)
      case (Inl e)
      with False s1 a1 s2 assms(1) u2 show ?thesis by (simp add: stage_def bind_def)
    next
      case a2: (Inr x2)
      show ?thesis
      proof (cases r3)
        case (Inl e)
        with False s1 a1 s2 a2 s3 w3 assms(1) u2 show ?thesis by (simp add: stage_def bind_def)
      next
        case (Inr x)
        with False s1 a1 s2 a2 s3 w3 assms(1) have "write_file (join d ''main.db'') x w2 = (r, w')"
          by (simp add: stage_def bind_def)
        from write_file_unique[OF this u2] show ?thesis .
      qed
    qed
  qed
next
  case True
  show ?thesis
  proof (cases "dirs_list a")
    case None
    with True assms show ?thesis by (simp add: stage_def raise_def)
  next
    case (Some ds)
    obtain r1 w1 where s1: "for_each (\<lambda>dir. os_makedirs (join d dir)) ds w = (r1, w1)" by (meson surj_pair)
    have u1: "unique_names (root w1)"
      by (rule for_each_inv[OF s1, where I = "\<lambda>v. unique_names (root v)"])
         (auto intro: assms(2) os_makedirs_unique)
    show ?thesis
    proof (cases r1)
      case (Inl e)
      with True Some s1 assms(1) u1 show ?thesis by (simp add: stage_def bind_def)
    next
      case (Inr x)
      show ?thesis
      proof (cases "files_list a")
        case None
        with True Some s1 Inr assms(1) u1 show ?thesis by (simp add: stage_def bind_def raise_def)
      next
        case fs: (Some fs)
        with True Some s1 Inr assms(1)
        have s2: "for_each (\<lambda>file. write_file (join d (fst file)) (snd file)) fs w1 = (r, w')"
          by (simp add: stage_def bind_def)
        show ?thesis
          by (rule for_each_inv[OF s2, where I = "\<lambda>v. unique_names (root v)"])
             (auto intro: u1 write_file_unique)
      qed
    qed
  qed
qed

lemma lookup_two_kids:
  assumes "lookup r (Dir [(''media'', Dir []), (''main.db'', File (Bytes []))]) = Some (File data)"
  shows "r = [''main.db''] \<and> data = Bytes []"
proof (cases r)
  case Nil
  with assms show ?thesis by simp
next
  case (Cons c r')
  with assms show ?thesis by (cases r') (auto split: if_splits)
qed

lemma stage_fresh_result:
  assumes st: "stage a d w = (Inr u, w')" and fr: "\<not> truthy (existing_file a)" and dne: "d \<noteq> []"
    and T0: "lookup (resolve w d) (root w) = Some (Dir [])"
  shows "\<exists>data. lookup (resolve w d) (root w') = Some (Dir [(''media'', Dir []), (''main.db'', File data)])
        \<and> (lookup (resolve w template_path) (root w) = Some (File data)
           \<or> resolve w template_path = resolve w d @ [''main.db''])"
proof -
  let ?T = "resolve w d"
  have vm: "valid_name ''media''" and vd: "valid_name ''main.db''" by (simp_all add: valid_name_def)
  have rjm: "resolve x (join d ''media'') = resolve x d @ [''media'']" for x
    by (rule resolve_join_child[OF vm dne])
  have rjd: "resolve x (join d ''main.db'') = resolve x d @ [''main.db'']" for x
    by (rule resolve_join_child[OF vd dne])
  from st fr have "bind (os_mkdir (join d ''media'')) (\<lambda>u.
        bind (write_file (join d ''main.db'') (Bytes [])) (\<lambda>u.
        bind (read_file template_path) (\<lambda>x.
        write_file (join d ''main.db'') x))) w = (Inr u, w')"
    by (simp add: stage_def open_wb_def)
  then obtain u1 w1 u2 w2 data w3 where
    s1: "os_mkdir (join d ''media'') w = (Inr u1, w1)"
    and s2: "write_file (join d ''main.db'') (Bytes []) w1 = (Inr u2, w2)"
    and s3: "read_file template_path w2 = (Inr data, w3)"
    and s4: "write_file (join d ''main.db'') data w3 = (Inr u, w')"
    by (elim bind_InrE) blast
  from os_mkdir_Inr[OF s1] have w1: "w1 = w\<lparr>root := put (?T @ [''media'']) (Dir []) (root w)\<rparr>"
    by (simp add: rjm)
  have T1: "lookup ?T (root w1) = Some (Dir [(''media'', Dir [])])"
    unfolding w1 using lookup_put_child[OF T0, of "''media''" "Dir []"] by simp
  have r1: "resolve w1 s = resolve w s" for s by (simp add: w1)
  from write_file_Inr[OF s2] have w2: "w2 = w1\<lparr>root := put (?T @ [''main.db'']) (File (Bytes [])) (root w1)\<rparr>"
    by (simp add: rjd r1)
  have T2: "lookup ?T (root w2) = Some (Dir [(''media'', Dir []), (''main.db'', File (Bytes []))])"
    unfolding w2 using lookup_put_child[OF T1, of "''main.db''" "File (Bytes [])"] by simp
  have r2: "resolve w2 s = resolve w s" for s by (simp add: w2 r1)
  from read_file_Inr[OF s3] have w3: "w3 = w2"
    and tp: "lookup (resolve w template_path) (root w2) = Some (File data)" by (simp_all add: r2)
  from write_file_Inr[OF s4] have w': "w' = w2\<lparr>root := put (?T @ [''main.db'']) (File data) (root w2)\<rparr>"
    by (simp add: rjd r2 w3)
  have T3: "lookup ?T (root w') = Some (Dir [(''media'', Dir []), (''main.db'', File data)])"
    unfolding w' using lookup_put_child[OF T2, of "''main.db''" "File data"] by simp
  let ?P = "resolve w template_path"
  have "lookup ?P (root w) = Some (File data) \<or> ?P = ?T @ [''main.db'']"
  proof (cases "prefix ?T ?P")
    case True
    then obtain r where r: "?P = ?T @ r" by (auto simp: prefix_def)
    with tp T2 have "lookup r (Dir [(''media'', Dir []), (''main.db'', File (Bytes []))]) = Some (File data)"
      by (simp add: lookup_append)
    from lookup_two_kids[OF this] r show ?thesis by simp
  next
    case False
    have nP: "\<not> prefix ?P ?T"
    proof
      assume "prefix ?P ?T"
      then obtain r where r: "?T = ?P @ r" by (auto simp: prefix_def)
      with False have "r \<noteq> []" by auto
      with T2 r lookup_prefix_dir[of ?P r "root w2"] tp show False by auto
    qed
    from not_prefix_children[OF False nP, where a = "[c]" and b = "[]" for c]
    have inc: "\<not> prefix (?T @ [c]) ?P" "\<not> prefix ?P (?T @ [c])" for c by simp_all
    have "lookup ?P (root w2) = lookup ?P (root w)"
      unfolding w2 w1 using inc by (simp add: lookup_put_other del: put.simps)
    with tp show ?thesis by simp
  qed
  with T3 show ?thesis by blast
qed

lemma stage_loaded_result:
  assumes st: "stage a d w = (Inr u, w')" and tr: "truthy (existing_file a)" and dne: "d \<noteq> []"
    and conf: "confined a" and pd: "plain d"
  shows "(\<forall>dir\<in>set (case dirs_list a of None \<Rightarrow> [] | Some ds \<Rightarrow> ds).
            is_dir_node (lookup (resolve w d @ rel_path dir) (root w')))
       \<and> (\<forall>q data. staged_file a q = Some data \<longrightarrow>
            lookup (resolve w d @ q) (root w') = Some (File data))"
proof -
  let ?T = "resolve w d"
  let ?g = "\<lambda>file. (rel_path (fst file), snd file)"
  from st tr obtain ds fs u1 w1 where ds: "dirs_list a = Some ds" and fs: "files_list a = Some fs"
    and s1: "for_each (\<lambda>dir. os_makedirs (join d dir)) ds w = (Inr u1, w1)"
    and s2: "for_each (\<lambda>file. write_file (join d (fst file)) (snd file)) fs w1 = (Inr u, w')"
    by (auto simp: stage_def raise_def split: option.splits elim!: bind_InrE)
  from conf ds fs have cds: "list_all clean_rel ds" and cfs: "list_all (\<lambda>file. clean_rel (fst file)) fs"
    by (simp_all add: confined_def)
  let ?I = "\<lambda>pre v. cwd v = cwd w \<and> (\<forall>dir\<in>set pre. is_dir_node (lookup (?T @ rel_path dir) (root v)))"
  have i1: "?I ds w1"
  proof (rule for_each_inv_pre[OF s1, where I = ?I])
    show "?I [] w" by simp
  next
    fix pre x v v' u2
    assume px: "prefix (pre @ [x]) ds" and iv: "?I pre v" and stp: "os_makedirs (join d x) v = (Inr u2, v')"
    from px have "x \<in> set ds" by (auto simp: prefix_def)
    with cds have cx: "clean_rel x" by (simp add: list_all_iff)
    from iv have cv: "cwd v = cwd w" by simp
    have rv: "resolve v s = resolve w s" for s using cv by (rule resolve_cong)
    have pj: "plain (join d x)" by (rule plain_join[OF pd cx dne])
    from os_makedirs_Inr[OF stp pj] have m: "makedirs_at (resolve v (join d x)) (root v) = Inr (root v')"
      and v': "v' = v\<lparr>root := root v'\<rparr>" by auto
    have rj: "resolve v (join d x) = ?T @ rel_path x"
      using resolve_join_rel[OF cx dne, of v] by (simp add: rv)
    from makedirs_at_is_dir[OF m] have new: "is_dir_node (lookup (?T @ rel_path x) (root v'))"
      by (simp add: rj)
    from v' cv have cv': "cwd v' = cwd w" by (metis world.select_convs(2) world.surjective world.update_convs(1))
    have "is_dir_node (lookup (?T @ rel_path y) (root v'))" if "y \<in> set pre" for y
      using os_makedirs_keeps_dir[OF stp, of "?T @ rel_path y"] iv that by (simp add: keeps_dir_def)
    with new cv' show "?I (pre @ [x]) v'" by auto
  qed
  let ?J = "\<lambda>pre v. cwd v = cwd w
      \<and> (\<forall>dir\<in>set ds. is_dir_node (lookup (?T @ rel_path dir) (root v)))
      \<and> (\<forall>q data. map_of (rev (map ?g pre)) q = Some data \<longrightarrow> lookup (?T @ q) (root v) = Some (File data))"
  have i2: "?J fs w'"
  proof (rule for_each_inv_pre[OF s2, where I = ?J])
    show "?J [] w1" using i1 by simp
  next
    fix pre x v v' u2
    assume px: "prefix (pre @ [x]) fs" and iv: "?J pre v"
      and stp: "write_file (join d (fst x)) (snd x) v = (Inr u2, v')"
    from px have "x \<in> set fs" by (auto simp: prefix_def)
    with cfs have cx: "clean_rel (fst x)" by (simp add: list_all_iff)
    from iv have cv: "cwd v = cwd w" by simp
    have rv: "resolve v s = resolve w s" for s using cv by (rule resolve_cong)
    have rj: "resolve v (join d (fst x)) = ?T @ rel_path (fst x)"
      using resolve_join_rel[OF cx dne, of v] by (simp add: rv)
    from write_file_Inr[OF stp]
    have "v' = v\<lparr>root := put (resolve v (join d (fst x))) (File (snd x)) (root v)\<rparr>"
      and "lookup (resolve v (join d (fst x))) (root v') = Some (File (snd x))"
      by blast+
    then have v': "v' = v\<lparr>root := put (?T @ rel_path (fst x)) (File (snd x)) (root v)\<rparr>"
      and new: "lookup (?T @ rel_path (fst x)) (root v') = Some (File (snd x))"
      unfolding rj by blast+
    from stp have nd: "\<not> is_dir_node (lookup (?T @ rel_path (fst x)) (root v))"
      using rj by (auto simp: write_file_def split: if_splits sum.splits option.splits node.splits
                        dest!: write_at_put)
    have cv': "cwd v' = cwd w" using cv by (simp add: v')
    have dirs: "is_dir_node (lookup (?T @ rel_path y) (root v'))" if "y \<in> set ds" for y
      using write_file_keeps_dir[OF stp, of "?T @ rel_path y"] iv that by (simp add: keeps_dir_def)
    have files: "lookup (?T @ q) (root v') = Some (File data)"
      if m: "map_of (rev (map ?g (pre @ [x]))) q = Some data" for q data
    proof (cases "q = rel_path (fst x)")
      case True
      with m new show ?thesis by simp
    next
      case False
      with m have "map_of (rev (map ?g pre)) q = Some data" by simp
      with iv have old: "lookup (?T @ q) (root v) = Some (File data)" by blast
      have "\<not> prefix (?T @ rel_path (fst x)) (?T @ q)"
      proof
        assume "prefix (?T @ rel_path (fst x)) (?T @ q)"
        then obtain r where r: "q = rel_path (fst x) @ r" by (auto simp: prefix_def)
        with False have "r \<noteq> []" by auto
        from old r have "lookup ((?T @ rel_path (fst x)) @ r) (root v) = Some (File data)" by simp
        from lookup_prefix_dir[OF this \<open>r \<noteq> []\<close>] nd show False by (auto simp: is_dir_node_def)
      qed
      from put_keeps_file[OF old this] show ?thesis by (simp add: v')
    qed
    from cv' dirs files show "?J (pre @ [x]) v'" by blast
  qed
  from i2 ds fs show ?thesis by (simp add: staged_file_def)
qed

lemma mkdtemp_made:
  assumes "mkdtemp w = (Inr d, w1)"
  shows "take 3 (drop 5 d) = ''tmp'' \<and> lookup [''tmp'', drop 5 d] (root w1) = Some (Dir [])"
proof -
  from mkdtemp_cases[OF assms] obtain kids where
    k: "lookup [''tmp''] (root w) = Some (Dir kids)"
    and d: "d = ''/tmp/'' @ fresh_name (map fst kids)"
    and w1: "w1 = w\<lparr>root := put [''tmp'', fresh_name (map fst kids)] (Dir []) (root w)\<rparr>"
    by auto
  have "lookup [''tmp'', fresh_name (map fst kids)] (root w1) = Some (Dir [])"
    unfolding w1 using k by (simp add: lookup_put_same is_dir_node_def del: put.simps)
  then show ?thesis by (simp add: d fresh_name_def)
qed


section \<open>Expanding into a numbered subdirectory\<close>

text \<open>The objects the scripts make are confined: the fresh one records nothing, and a load
  records the names the walk of its temporary directory gives.\<close>

lemma made_objects_confined:
  "confined init
   \<and> (case from_file init ''M.ewsx'' world_media of
         (Inr a, w) \<Rightarrow> confined a \<and> wf_world w
       | (Inl e, w) \<Rightarrow> False)
   \<and> (case from_file init ''N.ewsx'' world_nested of
         (Inr a, w) \<Rightarrow> confined a \<and> wf_world w
       | (Inl e, w) \<Rightarrow> False)"
  by code_simp

text \<open>
  C8, as the code has it. In a well-formed world whose directories hold each name once, for
  an object whose recorded names are relative and free of \<open>..\<close>, and an output directory
  named without \<open>..\<close>, other than the root and \<open>/tmp\<close>: when \<open>expand_to_dir\<close>
  returns, the output directory exists, its entry \<open>schedule\<close> followed by one more than
  the number of entries it had is a directory, and every entry of it with another name is
  as it was. For a fresh object that subdirectory holds an empty directory \<open>media\<close> and a
  file \<open>main.db\<close> with the bytes of the bundled template; for a loaded object every
  recorded directory is a directory below it, and at every path a recorded file leads to
  there is a file with the bytes of the last such record. So the subdirectory is a new one
  exactly when no entry of that name was there.
\<close>

theorem expand_to_dir_numbered_subdirectory:
  assumes ok: "expand_to_dir a output_dir w = (Inr (), w')"
    and wf: "wf_world w"
    and uq: "unique_names (root w)"
    and conf: "confined a"
    and pl: "plain output_dir"
    and h1: "resolve w output_dir \<noteq> []"
    and h2: "resolve w output_dir \<noteq> [''tmp'']"
  shows "is_dir_node (lookup (resolve w output_dir) (root w'))
       \<and> is_dir_node (lookup (resolve w output_dir @ [next_schedule w output_dir]) (root w'))
       \<and> (\<forall>name. name \<noteq> next_schedule w output_dir \<longrightarrow>
             lookup (resolve w output_dir @ [name]) (root w')
               = lookup (resolve w output_dir @ [name]) (root w))
       \<and> (\<not> truthy (existing_file a) \<longrightarrow>
            (\<exists>data. lookup (resolve w template_path) (root w) = Some (File data)
               \<and> lookup (resolve w output_dir @ [next_schedule w output_dir, ''media'']) (root w')
                   = Some (Dir [])
               \<and> lookup (resolve w output_dir @ [next_schedule w output_dir, ''main.db'']) (root w')
                   = Some (File data)))
       \<and> (truthy (existing_file a) \<longrightarrow>
            (\<forall>dir\<in>set (case dirs_list a of None \<Rightarrow> [] | Some ds \<Rightarrow> ds).
               is_dir_node (lookup (resolve w output_dir @ next_schedule w output_dir # rel_path dir)
                              (root w')))
          \<and> (\<forall>q data. staged_file a q = Some data \<longrightarrow>
               lookup (resolve w output_dir @ next_schedule w output_dir # q) (root w')
                 = Some (File data)))"
proof -
  let ?O = "resolve w output_dir"
  let ?sn = "next_schedule w output_dir"
  let ?S = "?O @ [?sn]"
  from ok obtain u1 w1 sp w6 where
    s1: "os_makedirs output_dir w = (Inr u1, w1)"
    and td: "TemporaryDirectory (\<lambda>temp_dir.
             bind (stage a temp_dir) (\<lambda>u.
             bind (os_listdir output_dir) (\<lambda>present.
               let num = length present + 1;
                   schedule_path = join output_dir (schedule_name num)
               in bind (os_makedirs schedule_path) (\<lambda>u.
                  bind (os_listdir temp_dir) (\<lambda>staged.
                  bind (for_each (copy_out temp_dir schedule_path) staged) (\<lambda>u.
                  return schedule_path)))))) w1 = (Inr sp, w6)"
    and pr: "print (Schedule_expanded (abspath w6 (join output_dir sp))) w6 = (Inr (), w')"
    unfolding expand_to_dir_def by (elim bind_InrE) blast
  from td obtain d w2 w5 where
    mk: "mkdtemp w1 = (Inr d, w2)"
    and body: "bind (stage a d) (\<lambda>u.
             bind (os_listdir output_dir) (\<lambda>present.
               let num = length present + 1;
                   schedule_path = join output_dir (schedule_name num)
               in bind (os_makedirs schedule_path) (\<lambda>u.
                  bind (os_listdir d) (\<lambda>staged.
                  bind (for_each (copy_out d schedule_path) staged) (\<lambda>u.
                  return schedule_path))))) w2 = (Inr sp, w5)"
    and w6: "w6 = rmtree d w5"
    by (elim TemporaryDirectory_InrE) blast
  from body obtain u3 w3 present w3' where
    st: "stage a d w2 = (Inr u3, w3)"
    and ls: "os_listdir output_dir w3 = (Inr present, w3')"
    and rest: "bind (os_makedirs (join output_dir (schedule_name (length present + 1)))) (\<lambda>u.
                  bind (os_listdir d) (\<lambda>staged.
                  bind (for_each (copy_out d (join output_dir (schedule_name (length present + 1)))) staged) (\<lambda>u.
                  return (join output_dir (schedule_name (length present + 1)))))) w3' = (Inr sp, w5)"
    by (elim bind_InrE) (simp add: Let_def)
  let ?spath = "join output_dir (schedule_name (length present + 1))"
  from rest obtain u4 w4 staged w4' u5 w5' where
    s4: "os_makedirs ?spath w3' = (Inr u4, w4)"
    and ls2: "os_listdir d w4 = (Inr staged, w4')"
    and cp: "for_each (copy_out d ?spath) staged w4' = (Inr u5, w5')"
    and ret: "return ?spath w5' = (Inr sp, w5)"
    by (elim bind_InrE) blast
  from ret have w5': "w5' = w5" by (simp add: return_def)

  \<comment> \<open>the output directory is made\<close>
  from os_makedirs_Inr[OF s1 pl] have od: "output_dir \<noteq> []"
    and m1: "makedirs_at ?O (root w) = Inr (root w1)" by auto
  have f1: "frame ?O w w1" using os_makedirs_frame[OF s1 pl, of ?O] by simp
  have c1: "cwd w1 = cwd w" using f1 by (simp add: frame_def)
  have wf1: "wf_world w1" using os_makedirs_wf[OF s1 wf] .
  have uq1: "unique_names (root w1)" using os_makedirs_unique[OF s1 uq] .
  have O1: "lookup ?O (root w1) = (case lookup ?O (root w) of None \<Rightarrow> Some (Dir []) | Some n \<Rightarrow> Some n)"
    by (rule makedirs_at_lookup[OF m1])
  have O1d: "is_dir_node (lookup ?O (root w1))" by (rule makedirs_at_is_dir[OF m1])
  have A1: "lookup q (root w1) = lookup q (root w)" if "\<not> prefix q ?O" for q
    by (rule makedirs_at_frame[OF m1 that])

  \<comment> \<open>the temporary directory\<close>
  from mkdtemp_fresh[OF mk] obtain nm where
    d: "d = ''/tmp/'' @ nm" and vnm: "valid_name nm" and rd: "resolve w1 d = [''tmp'', nm]"
    and fresh: "lookup [''tmp'', nm] (root w1) = None"
    and w2: "w2 = w1\<lparr>root := put [''tmp'', nm] (Dir []) (root w1)\<rparr>"
    by blast
  from mkdtemp_made[OF mk] d have tnm: "take 3 nm = ''tmp''"
    and T2: "lookup [''tmp'', nm] (root w2) = Some (Dir [])" by auto
  have uq2: "unique_names (root w2)" using uq1 by (simp add: w2 unique_put del: put.simps)
  let ?T = "[''tmp'', nm]"
  have dne: "d \<noteq> []" using d by simp
  have pd: "plain d" using vnm unfolding d by (intro plain_tmp) (auto simp: valid_name_def)
  have rT: "resolve v d = ?T" for v
    using rd by (simp add: resolve_def d startswith_def)
  have nTO: "\<not> prefix ?T ?O"
  proof
    assume "prefix ?T ?O"
    then obtain r1 where "?O = ?T @ r1" by (auto simp: prefix_def)
    with O1d lookup_prefix_some[of ?T r1 "root w1"] fresh show False
      by (auto simp: is_dir_node_def split: option.splits)
  qed
  have nOT: "\<not> prefix ?O ?T"
  proof
    assume "prefix ?O ?T"
    then have "?O = [] \<or> ?O = [''tmp''] \<or> ?O = ?T"
      by (cases ?O; cases "tl ?O"; cases "tl (tl ?O)") auto
    with h1 h2 nTO show False by auto
  qed
  have f2: "frame ?T w1 w2" using frame_put[of ?T ?T w1 "Dir []"] w2 by simp
  have wf2: "wf_world w2"
    using wf_world_put[OF wf1, of "Dir []" ?T] vnm w2 by (simp add: valid_name_def)

  \<comment> \<open>staging\<close>
  from stage_frame[OF st dne conf pd] rT[of w2] wf2
  have f3: "frame ?T w2 w3" and wf3: "wf_world w3" by auto
  have uq3: "unique_names (root w3)" using stage_unique[OF st uq2] .
  from os_listdir_Inr[OF ls] obtain kidsO where
    w3': "w3' = w3" and O3: "lookup (resolve w3 output_dir) (root w3) = Some (Dir kidsO)"
    and present: "present = map fst kidsO" by auto
  have f13: "frame ?T w1 w3" using f2 f3 by (rule frame_trans)
  have c3: "cwd w3 = cwd w" using f13 c1 by (simp add: frame_def)
  have r3: "resolve w3 s = resolve w s" for s using c3 by (simp add: resolve_def)
  have "lookup ?O (root w3) = lookup ?O (root w1)"
    using f13 nTO nOT by (simp add: frame_def)
  with O3 O1 have "entries_of w output_dir = map fst kidsO"
    by (auto simp: entries_of_def r3 split: option.splits node.splits)
  with present have sn: "schedule_name (length present + 1) = ?sn"
    by (simp add: next_schedule_def)
  have vsn: "valid_name ?sn" by (simp add: next_schedule_def schedule_name_valid)
  have rS: "resolve v ?spath = ?S" if "cwd v = cwd w" for v
  proof -
    from that have "resolve v s = resolve w s" for s by (simp add: resolve_def)
    with resolve_join_child[OF vsn od, of v] sn show ?thesis by simp
  qed

  \<comment> \<open>the numbered subdirectory\<close>
  have ps: "plain ?spath"
    unfolding sn by (rule plain_join[OF pl valid_name_clean_rel[OF vsn] od])
  from os_makedirs_Inr[OF s4 ps] rS[of w3] c3 w3'
  have m4: "makedirs_at ?S (root w3) = Inr (root w4)" by simp
  have f4: "frame ?S w3 w4" using os_makedirs_frame[OF s4 ps, of ?S] rS[of w3] c3 w3' by simp
  have c4: "cwd w4 = cwd w" using f4 c3 by (simp add: frame_def)
  have wf4: "wf_world w4" using os_makedirs_wf[OF s4] wf3 w3' by simp
  have uq4: "unique_names (root w4)" using os_makedirs_unique[OF s4] uq3 w3' by simp
  have S4: "is_dir_node (lookup ?S (root w4))" by (rule makedirs_at_is_dir[OF m4])
  have A4: "lookup q (root w4) = lookup q (root w3)" if "\<not> prefix q ?S" for q
    by (rule makedirs_at_frame[OF m4 that])

  \<comment> \<open>copying out\<close>
  from os_listdir_Inr[OF ls2] rT[of w4] obtain kidsT where
    w4': "w4' = w4" and T4: "lookup ?T (root w4) = Some (Dir kidsT)"
    and staged: "staged = map fst kidsT" by auto
  from wf4 T4 have "wf_node (Dir kidsT)" by (auto simp: wf_world_def dest: wf_lookup)
  then have vst: "list_all valid_name staged" using staged by (simp add: wf_kids_names)
  have spne: "?spath \<noteq> []"
    unfolding sn using vsn by (intro join_nonempty) (simp add: valid_name_def)
  let ?I = "\<lambda>v. frame ?S w4 v \<and> keeps_dir ?S w4 v"
  have i5: "?I w5"
  proof (rule for_each_inv[OF cp[unfolded w4' w5'], where I = ?I])
    show "?I w4" by (simp add: frame_refl keeps_dir_refl)
  next
    fix x v r1 v'
    assume x: "x \<in> set staged" and iv: "?I v" and stp: "copy_out d ?spath x v = (r1, v')"
    from x vst have vx: "valid_name x" by (simp add: list_all_iff)
    from iv c4 have "cwd v = cwd w" by (simp add: frame_def)
    from copy_out_frame[OF stp vx spne ps] rS[OF this] iv show "?I v'"
      by (auto intro: frame_trans keeps_dir_trans)
  qed
  have c5: "cwd w5 = cwd w" using i5 c4 by (simp add: frame_def)

  \<comment> \<open>cleaning up\<close>
  have f6: "frame ?T w5 w6" using rmtree_frame[of w5 d] rT[of w5] w6 by simp
  have nTS: "\<not> prefix ?T ?S"
  proof
    assume "prefix ?T ?S"
    then have "prefix ?T ?O \<or> ?T = ?S" by auto
    with nTO have "?T = ?S" by simp
    then have "?O = [''tmp'']" by (cases ?O) auto
    with h2 show False by simp
  qed
  have k6: "keeps_dir ?S w5 w6" using rmtree_keeps_dir[of w5 d ?S] rT[of w5] nTS w6 by simp
  from pr have root': "root w' = root w6" by (auto simp: print_def)

  have a: "is_dir_node (lookup ?S (root w'))"
    using S4 i5 k6 root' by (simp add: keeps_dir_def)
  then obtain x where "lookup (?O @ [?sn]) (root w') = Some x"
    by (auto simp: is_dir_node_def split: option.splits)
  from lookup_prefix_dir[OF this] have i: "is_dir_node (lookup ?O (root w'))"
    by (auto simp: is_dir_node_def)
  have b: "lookup (?O @ [name]) (root w') = lookup (?O @ [name]) (root w)"
    if ne: "name \<noteq> ?sn" for name
  proof -
    let ?q = "?O @ [name]"
    have q1: "\<not> prefix ?q ?O" by simp
    have qT: "\<not> prefix ?T ?q"
    proof
      assume "prefix ?T ?q"
      then have "prefix ?T ?O \<or> ?T = ?q" by auto
      with nTO have "?T = ?q" by simp
      then have "?O = [''tmp'']" by (cases ?O) auto
      with h2 show False by simp
    qed
    have Tq: "\<not> prefix ?q ?T"
    proof
      assume "prefix ?q ?T"
      then have "prefix ?O ?T" by (meson prefix_order.trans prefixI)
      with nOT show False by simp
    qed
    have qS: "\<not> prefix ?q ?S" "\<not> prefix ?S ?q" using ne by auto
    have "lookup ?q (root w') = lookup ?q (root w5)"
      using root' f6 qT Tq by (simp add: frame_def)
    also have "\<dots> = lookup ?q (root w4)" using i5 qS by (simp add: frame_def)
    also have "\<dots> = lookup ?q (root w3)" using A4 qS by simp
    also have "\<dots> = lookup ?q (root w1)" using f13 qT Tq by (simp add: frame_def)
    also have "\<dots> = lookup ?q (root w)" using A1 q1 by simp
    finally show ?thesis .
  qed

  \<comment> \<open>what has been staged is in the subdirectory\<close>
  have nST: "\<not> prefix ?S ?T"
  proof
    assume "prefix ?S ?T"
    then have "prefix ?O ?T" by (meson prefix_order.trans prefixI)
    with nOT show False by simp
  qed
  have T3: "lookup ?T (root w3) = Some (Dir kidsT)"
    using A4[of ?T] nTS T4 by simp
  have move: "lookup (?S @ q) (root w') = Some x"
    if q: "q \<noteq> []" and l3: "lookup (?T @ q) (root w3) = Some x" for q x
  proof -
    have "\<not> prefix (?T @ q) ?S"
      using not_prefix_children[OF nST nTS, where a = "[]" and b = q] by simp
    with A4[of "?T @ q"] l3 have l4: "lookup (resolve w4 d @ q) (root w4) = Some x"
      by (simp add: rT)
    have "lookup (resolve w4 ?spath @ q) (root w5) = Some x"
    proof (rule copy_loop_result[OF cp[unfolded w4' w5'] _ staged vst uq4 _ spne dne ps _ _ q l4])
      show "lookup (resolve w4 d) (root w4) = Some (Dir kidsT)" using T4 by (simp add: rT)
      show "is_dir_node (lookup (resolve w4 ?spath) (root w4))" using S4 rS[OF c4] by simp
      show "\<not> prefix (resolve w4 ?spath) (resolve w4 d)" using nST rS[OF c4] by (simp add: rT)
      show "\<not> prefix (resolve w4 d) (resolve w4 ?spath)" using nTS rS[OF c4] by (simp add: rT)
    qed
    then have l5: "lookup (?S @ q) (root w5) = Some x" using rS[OF c4] by simp
    have "\<not> prefix ?T (?S @ q)" "\<not> prefix (?S @ q) ?T"
      using not_prefix_children[OF nST nTS, where a = q and b = "[]"] by simp_all
    with f6 have "lookup (?S @ q) (root w6) = lookup (?S @ q) (root w5)" unfolding frame_def by blast
    with l5 root' show ?thesis by simp
  qed
  have c: "\<exists>data. lookup (resolve w template_path) (root w) = Some (File data)
               \<and> lookup (?O @ [?sn, ''media'']) (root w') = Some (Dir [])
               \<and> lookup (?O @ [?sn, ''main.db'']) (root w') = Some (File data)"
    if fr: "\<not> truthy (existing_file a)"
  proof -
    let ?P = "resolve w template_path"
    have c2: "cwd w2 = cwd w" using c1 by (simp add: w2)
    have r2: "resolve w2 s = resolve w s" for s using c2 by (rule resolve_cong)
    from stage_fresh_result[OF st fr dne] T2 rT[of w2] obtain data where
      T3': "lookup ?T (root w3) = Some (Dir [(''media'', Dir []), (''main.db'', File data)])"
      and tp: "lookup ?P (root w2) = Some (File data) \<or> ?P = ?T @ [''main.db'']"
      by (auto simp: r2)
    have P: "?P = cwd w @ [''sample_files'', ''main.db'']"
      by (simp add: resolve_def startswith_def)
    have "?P \<noteq> ?T @ [''main.db'']"
    proof
      assume "?P = ?T @ [''main.db'']"
      with P have "nm = ''sample_files''" by (cases "cwd w"; cases "tl (cwd w)") auto
      with tnm show False by simp
    qed
    with tp have p2: "lookup ?P (root w2) = Some (File data)" by simp
    have nTP: "\<not> prefix ?T ?P"
    proof
      assume "prefix ?T ?P"
      then obtain r where r: "?P = ?T @ r" by (auto simp: prefix_def)
      with p2 T2 have "lookup r (Dir []) = Some (File data)"
        using lookup_append[of ?T r "root w2"] by simp
      then show False by (cases r) auto
    qed
    have nPT: "\<not> prefix ?P ?T"
    proof
      assume "prefix ?P ?T"
      then obtain r where r: "?T = ?P @ r" by (auto simp: prefix_def)
      with nTP have "r \<noteq> []" by auto
      with T2 r lookup_prefix_dir[of ?P r "root w2"] p2 show False by auto
    qed
    from nTP nPT have p1: "lookup ?P (root w1) = Some (File data)"
      using p2 by (simp add: w2 lookup_put_other del: put.simps)
    have "\<not> prefix ?P ?O"
    proof
      assume "prefix ?P ?O"
      then obtain r where r: "?O = ?P @ r" by (auto simp: prefix_def)
      show False
      proof (cases "r = []")
        case True
        with r O1d p1 show False by (simp add: is_dir_node_def)
      next
        case False
        from O1d obtain k where "lookup (?P @ r) (root w1) = Some (Dir k)"
          using r by (auto simp: is_dir_node_def split: option.splits node.splits)
        from lookup_prefix_dir[OF this False] p1 show False by auto
      qed
    qed
    from A1[OF this] p1 have p0: "lookup ?P (root w) = Some (File data)" by simp
    have "lookup (?T @ [''media'']) (root w3) = Some (Dir [])"
      and "lookup (?T @ [''main.db'']) (root w3) = Some (File data)"
      using T3' lookup_append[of ?T "[''media'']" "root w3"]
        lookup_append[of ?T "[''main.db'']" "root w3"] by simp_all
    from move[OF _ this(1)] move[OF _ this(2)] p0 show ?thesis by simp
  qed
  have e: "(\<forall>dir\<in>set (case dirs_list a of None \<Rightarrow> [] | Some ds \<Rightarrow> ds).
               is_dir_node (lookup (?O @ ?sn # rel_path dir) (root w')))
          \<and> (\<forall>q data. staged_file a q = Some data \<longrightarrow>
               lookup (?O @ ?sn # q) (root w') = Some (File data))"
    if tr: "truthy (existing_file a)"
  proof -
    from stage_loaded_result[OF st tr dne conf pd] rT[of w2]
    have dirs: "\<And>dir. dir \<in> set (case dirs_list a of None \<Rightarrow> [] | Some ds \<Rightarrow> ds) \<Longrightarrow>
                 is_dir_node (lookup (?T @ rel_path dir) (root w3))"
      and files: "\<And>q data. staged_file a q = Some data \<Longrightarrow> lookup (?T @ q) (root w3) = Some (File data)"
      by auto
    have "is_dir_node (lookup (?O @ ?sn # rel_path dir) (root w'))"
      if "dir \<in> set (case dirs_list a of None \<Rightarrow> [] | Some ds \<Rightarrow> ds)" for dir
    proof (cases "rel_path dir = []")
      case True
      with a show ?thesis by simp
    next
      case False
      from dirs[OF that] obtain k where "lookup (?T @ rel_path dir) (root w3) = Some (Dir k)"
        by (auto simp: is_dir_node_def split: option.splits node.splits)
      from move[OF False this] show ?thesis by (simp add: is_dir_node_def)
    qed
    moreover have "lookup (?O @ ?sn # q) (root w') = Some (File data)"
      if "staged_file a q = Some data" for q data
    proof -
      from files[OF that] have l: "lookup (?T @ q) (root w3) = Some (File data)" .
      with T3 have "q \<noteq> []" by auto
      from move[OF this l] show ?thesis by simp
    qed
    ultimately show ?thesis by blast
  qed
  from i a b c e show ?thesis by blast
qed

text \<open>With \<open>schedule1\<close> and \<open>schedule2\<close> present a fresh object is expanded into
  \<open>schedule3\<close>, which gets the empty \<open>media\<close> and the template's bytes, and the two
  are as before; two calls in a row on an absent output directory leave \<open>schedule1\<close> and
  \<open>schedule2\<close>. The object loaded from \<open>M.ewsx\<close> is expanded into \<open>schedule1\<close> with
  its directory and its two files.\<close>

theorem expand_to_dir_numbered_subdirectory_witness:
  "wf_world world_two \<and> unique_names (root world_two) \<and> confined init \<and> plain ''out''
   \<and> resolve world_two ''out'' = [''work'', ''out'']
   \<and> fst (expand_to_dir init ''out'' world_two) = Inr ()
   \<and> next_schedule world_two ''out'' = ''schedule3''
   \<and> \<not> truthy (existing_file init)
   \<and> lookup (resolve world_two template_path) (root world_two) = Some (File (Bytes [9, 9]))
   \<and> lookup ([''work'', ''out''] @ [''schedule3'', ''media''])
         (root (snd (expand_to_dir init ''out'' world_two))) = Some (Dir [])
   \<and> lookup ([''work'', ''out''] @ [''schedule3'', ''main.db''])
         (root (snd (expand_to_dir init ''out'' world_two))) = Some (File (Bytes [9, 9]))
   \<and> is_dir_node (lookup ([''work'', ''out''] @ [''schedule3''])
         (root (snd (expand_to_dir init ''out'' world_two))))
   \<and> lookup ([''work'', ''out''] @ [''schedule1'']) (root (snd (expand_to_dir init ''out'' world_two)))
       = lookup ([''work'', ''out''] @ [''schedule1'']) (root world_two)
   \<and> lookup ([''work'', ''out''] @ [''schedule2'']) (root (snd (expand_to_dir init ''out'' world_two)))
       = lookup ([''work'', ''out''] @ [''schedule2'']) (root world_two)
   \<and> entries_of (snd (bind (expand_to_dir init ''out'') (\<lambda>u. expand_to_dir init ''out'') world_template))
         ''out'' = [''schedule1'', ''schedule2'']
   \<and> from_file init ''M.ewsx'' world_media = (Inr media_object, world_media)
   \<and> wf_world world_media \<and> unique_names (root world_media) \<and> confined media_object
   \<and> resolve world_media ''out'' = [''work'', ''out'']
   \<and> fst (expand_to_dir media_object ''out'' world_media) = Inr ()
   \<and> next_schedule world_media ''out'' = ''schedule1''
   \<and> truthy (existing_file media_object)
   \<and> dirs_list media_object = Some [''media''] \<and> rel_path ''media'' = [''media'']
   \<and> staged_file media_object [''media'', ''image.png''] = Some (Bytes [7])
   \<and> staged_file media_object [''main.db''] = Some (Bytes [1, 2, 3])
   \<and> is_dir_node (lookup ([''work'', ''out''] @ ''schedule1'' # [''media''])
         (root (snd (expand_to_dir media_object ''out'' world_media))))
   \<and> lookup ([''work'', ''out''] @ ''schedule1'' # [''media'', ''image.png''])
         (root (snd (expand_to_dir media_object ''out'' world_media))) = Some (File (Bytes [7]))
   \<and> lookup ([''work'', ''out''] @ ''schedule1'' # [''main.db''])
         (root (snd (expand_to_dir media_object ''out'' world_media))) = Some (File (Bytes [1, 2, 3]))"
proof -
  let ?w' = "snd (expand_to_dir init ''out'' world_two)"
  let ?m' = "snd (expand_to_dir media_object ''out'' world_media)"
  have wf: "wf_world world_two" by code_simp
  have uq: "unique_names (root world_two)" by code_simp
  have cf: "confined init" by code_simp
  have pl: "plain ''out''" by code_simp
  have rs: "resolve world_two ''out'' = [''work'', ''out'']" by code_simp
  have ok: "fst (expand_to_dir init ''out'' world_two) = Inr ()" by code_simp
  then have ok': "expand_to_dir init ''out'' world_two = (Inr (), ?w')"
    by (metis prod.collapse)
  have ns: "next_schedule world_two ''out'' = ''schedule3''" by code_simp
  have nt: "\<not> truthy (existing_file init)" by code_simp
  have tp: "lookup (resolve world_two template_path) (root world_two) = Some (File (Bytes [9, 9]))"
    by code_simp
  have two: "entries_of (snd (bind (expand_to_dir init ''out'') (\<lambda>u. expand_to_dir init ''out'') world_template))
         ''out'' = [''schedule1'', ''schedule2'']"
    by code_simp
  have h1: "resolve world_two ''out'' \<noteq> []" and h2: "resolve world_two ''out'' \<noteq> [''tmp'']"
    by (simp_all add: rs)
  note concl = expand_to_dir_numbered_subdirectory[OF ok' wf uq cf pl h1 h2, unfolded rs ns]
  from concl have d: "is_dir_node (lookup ([''work'', ''out''] @ [''schedule3'']) (root ?w'))"
    by blast
  from concl have k1: "lookup ([''work'', ''out''] @ [''schedule1'']) (root ?w')
       = lookup ([''work'', ''out''] @ [''schedule1'']) (root world_two)"
    by (elim conjE allE[of _ "''schedule1''"]) simp
  from concl have k2: "lookup ([''work'', ''out''] @ [''schedule2'']) (root ?w')
       = lookup ([''work'', ''out''] @ [''schedule2'']) (root world_two)"
    by (elim conjE allE[of _ "''schedule2''"]) simp
  from concl nt obtain data where
    "lookup (resolve world_two template_path) (root world_two) = Some (File data)"
    and "lookup ([''work'', ''out''] @ [''schedule3'', ''media'']) (root ?w') = Some (Dir [])"
    and "lookup ([''work'', ''out''] @ [''schedule3'', ''main.db'']) (root ?w') = Some (File data)"
    by blast
  with tp have md: "lookup ([''work'', ''out''] @ [''schedule3'', ''media'']) (root ?w') = Some (Dir [])"
    and db: "lookup ([''work'', ''out''] @ [''schedule3'', ''main.db'']) (root ?w') = Some (File (Bytes [9, 9]))"
    by simp_all
  have ld: "from_file init ''M.ewsx'' world_media = (Inr media_object, world_media)" by code_simp
  have mwf: "wf_world world_media" by code_simp
  have muq: "unique_names (root world_media)" by code_simp
  have mcf: "confined media_object" by code_simp
  have mrs: "resolve world_media ''out'' = [''work'', ''out'']" by code_simp
  have mok: "fst (expand_to_dir media_object ''out'' world_media) = Inr ()" by code_simp
  then have mok': "expand_to_dir media_object ''out'' world_media = (Inr (), ?m')"
    by (metis prod.collapse)
  have mns: "next_schedule world_media ''out'' = ''schedule1''" by code_simp
  have tr: "truthy (existing_file media_object)" by code_simp
  have dl: "dirs_list media_object = Some [''media'']" by code_simp
  have rp: "rel_path ''media'' = [''media'']" by code_simp
  have s1: "staged_file media_object [''media'', ''image.png''] = Some (Bytes [7])" by code_simp
  have s2: "staged_file media_object [''main.db''] = Some (Bytes [1, 2, 3])" by code_simp
  have m1: "resolve world_media ''out'' \<noteq> []" and m2: "resolve world_media ''out'' \<noteq> [''tmp'']"
    by (simp_all add: mrs)
  note mconcl = expand_to_dir_numbered_subdirectory[OF mok' mwf muq mcf pl m1 m2, unfolded mrs mns]
  from mconcl tr have dirs: "\<forall>dir\<in>set (case dirs_list media_object of None \<Rightarrow> [] | Some ds \<Rightarrow> ds).
        is_dir_node (lookup ([''work'', ''out''] @ ''schedule1'' # rel_path dir) (root ?m'))"
    and files: "\<forall>q data. staged_file media_object q = Some data \<longrightarrow>
        lookup ([''work'', ''out''] @ ''schedule1'' # q) (root ?m') = Some (File data)"
    by blast+
  from dirs dl rp have e1: "is_dir_node (lookup ([''work'', ''out''] @ ''schedule1'' # [''media'']) (root ?m'))"
    by simp
  from files s1 have e2: "lookup ([''work'', ''out''] @ ''schedule1'' # [''media'', ''image.png'']) (root ?m')
       = Some (File (Bytes [7]))" by blast
  from files s2 have e3: "lookup ([''work'', ''out''] @ ''schedule1'' # [''main.db'']) (root ?m')
       = Some (File (Bytes [1, 2, 3]))" by blast
  from wf uq cf pl rs ok ns nt tp md db d k1 k2 two have A: "wf_world world_two \<and> unique_names (root world_two) \<and> confined init \<and> plain ''out''
   \<and> resolve world_two ''out'' = [''work'', ''out'']
   \<and> fst (expand_to_dir init ''out'' world_two) = Inr ()
   \<and> next_schedule world_two ''out'' = ''schedule3''
   \<and> \<not> truthy (existing_file init)
   \<and> lookup (resolve world_two template_path) (root world_two) = Some (File (Bytes [9, 9]))
   \<and> lookup ([''work'', ''out''] @ [''schedule3'', ''media'']) (root ?w') = Some (Dir [])
   \<and> lookup ([''work'', ''out''] @ [''schedule3'', ''main.db'']) (root ?w') = Some (File (Bytes [9, 9]))
   \<and> is_dir_node (lookup ([''work'', ''out''] @ [''schedule3'']) (root ?w'))
   \<and> lookup ([''work'', ''out''] @ [''schedule1'']) (root ?w')
       = lookup ([''work'', ''out''] @ [''schedule1'']) (root world_two)
   \<and> lookup ([''work'', ''out''] @ [''schedule2'']) (root ?w')
       = lookup ([''work'', ''out''] @ [''schedule2'']) (root world_two)
   \<and> entries_of (snd (bind (expand_to_dir init ''out'') (\<lambda>u. expand_to_dir init ''out'') world_template))
         ''out'' = [''schedule1'', ''schedule2'']"
    by blast
  from ld mwf muq mcf mrs mok mns tr dl rp s1 s2 e1 e2 e3 have B: "from_file init ''M.ewsx'' world_media = (Inr media_object, world_media)
   \<and> wf_world world_media \<and> unique_names (root world_media) \<and> confined media_object
   \<and> resolve world_media ''out'' = [''work'', ''out'']
   \<and> fst (expand_to_dir media_object ''out'' world_media) = Inr ()
   \<and> next_schedule world_media ''out'' = ''schedule1''
   \<and> truthy (existing_file media_object)
   \<and> dirs_list media_object = Some [''media''] \<and> rel_path ''media'' = [''media'']
   \<and> staged_file media_object [''media'', ''image.png''] = Some (Bytes [7])
   \<and> staged_file media_object [''main.db''] = Some (Bytes [1, 2, 3])
   \<and> is_dir_node (lookup ([''work'', ''out''] @ ''schedule1'' # [''media'']) (root ?m'))
   \<and> lookup ([''work'', ''out''] @ ''schedule1'' # [''media'', ''image.png'']) (root ?m') = Some (File (Bytes [7]))
   \<and> lookup ([''work'', ''out''] @ ''schedule1'' # [''main.db'']) (root ?m') = Some (File (Bytes [1, 2, 3]))"
    by blast
  from A B show ?thesis by blast
qed

text \<open>
  C8 as stated fails: with the single entry \<open>schedule2\<close> in the output directory the
  count gives \<open>schedule2\<close> again; no new subdirectory is made, and the expansion goes
  into the existing one, replacing its \<open>main.db\<close>.
\<close>

theorem expand_to_dir_reuses_existing_subdirectory:
  "entries_of world_gap ''out'' = [''schedule2'']
   \<and> lookup [''work'', ''out'', ''schedule2''] (root world_gap)
       = Some (Dir [(''main.db'', File (Bytes [2]))])
   \<and> fst (expand_to_dir init ''out'' world_gap) = Inr ()
   \<and> entries_of (snd (expand_to_dir init ''out'' world_gap)) ''out'' = [''schedule2'']
   \<and> lookup [''work'', ''out'', ''schedule2''] (root (snd (expand_to_dir init ''out'' world_gap)))
       = Some (Dir [(''main.db'', File (Bytes [9, 9])), (''media'', Dir [])])"
  by code_simp

end
